theory Spec2Isabelle
  imports Main "HOL-Library.Word"
begin

unbundle bit_operations_syntax

section \<open>Data model of \<^verbatim>\<open>hmap.c\<close>\<close>

text \<open>
  The embedding follows \<^verbatim>\<open>src/modified_tree_bitmap/hmap.c\<close> on an LP64 platform:
  \<^verbatim>\<open>size_t\<close> is a 64-bit word (so the \<^verbatim>\<open>#if SIZE_MAX > UINT32_MAX\<close> branch of
  \<^verbatim>\<open>calc_mask\<close> is compiled in), the cursor of \<^verbatim>\<open>hmap_at_position\<close> is a pair of
  32-bit words, and a node pointer is a 64-bit address with \<^verbatim>\<open>NULL = 0\<close>.
\<close>

type_synonym size_t = "64 word"
type_synonym uint32_t = "32 word"
type_synonym addr = "64 word"

abbreviation NULL :: addr where
  "NULL \<equiv> 0"

text \<open>
  A \<^verbatim>\<open>struct hmap *\<close> is the address of a client table or of the local variable
  \<^verbatim>\<open>tmp\<close> of \<^verbatim>\<open>resize\<close>. A \<^verbatim>\<open>struct hmap_node **\<close> that is stored in the field
  \<^verbatim>\<open>buckets\<close> points either at the inline slot \<^verbatim>\<open>one\<close> of some table or at a block
  obtained from the allocator.
\<close>

datatype href = Table nat | Resize_tmp

datatype bptr = Inline_slot href | Block nat

text \<open>The pointer \<^verbatim>\<open>bucket\<close> of \<^verbatim>\<open>hmap_node_moved\<close>: a bucket slot or a node's \<^verbatim>\<open>next\<close> field.\<close>

datatype link = Slot bptr size_t | Next_field addr

datatype fault = Assertion_failed | Invalid_access

text \<open>\<^verbatim>\<open>struct hmap\<close>, with the fields \<^verbatim>\<open>buckets\<close>, \<^verbatim>\<open>one\<close>, \<^verbatim>\<open>mask\<close> and \<^verbatim>\<open>n\<close>.\<close>

record hmap =
  h_buckets :: bptr
  h_one :: addr
  h_mask :: size_t
  h_n :: size_t

text \<open>
  The store: the table structs by address, the allocated bucket blocks (\<open>None\<close> when not
  allocated), the allocator's next block and what fresh memory holds, and the two fields
  \<^verbatim>\<open>hash\<close> and \<^verbatim>\<open>next\<close> of every \<^verbatim>\<open>struct hmap_node\<close> by address.
\<close>

record state =
  tables :: "href \<Rightarrow> hmap"
  blocks :: "nat \<Rightarrow> addr list option"
  next_block :: nat
  fresh_mem :: "nat \<Rightarrow> addr"
  node_hash :: "addr \<Rightarrow> size_t"
  node_next :: "addr \<Rightarrow> addr"

text \<open>
  A call either does not return (\<open>None\<close>), aborts with a fault (\<open>Some (Inl e)\<close>) or
  returns (\<open>Some (Inr x)\<close>). \<open>and_then\<close> sequences two such computations.
\<close>

definition and_then ::
  "(fault + 'a) option \<Rightarrow> ('a \<Rightarrow> (fault + 'b) option) \<Rightarrow> (fault + 'b) option" where
  "and_then m f = (case m of None \<Rightarrow> None | Some (Inl e) \<Rightarrow> Some (Inl e) | Some (Inr x) \<Rightarrow> f x)"

lemma and_then_bind:
  "and_then m f = Option.bind m (\<lambda>r. case r of Inl e \<Rightarrow> Some (Inl e) | Inr x \<Rightarrow> f x)"
  by (simp add: and_then_def split: option.splits sum.splits)

lemma and_then_mono [partial_function_mono]:
  assumes "mono_option B" and "\<And>y. mono_option (\<lambda>f. C y f)"
  shows "mono_option (\<lambda>f. and_then (B f) (\<lambda>y. C y f))"
  unfolding and_then_bind
proof (intro bind_mono assms)
  fix y
  show "mono_option (\<lambda>f. case y of Inl e \<Rightarrow> Some (Inl e) | Inr x \<Rightarrow> C x f)"
    by (cases y) (simp_all add: assms(2) option.const_mono)
qed

subsection \<open>Memory accesses\<close>

text \<open>\<^verbatim>\<open>p[i]\<close> for a bucket pointer \<open>p\<close>; an access outside the object is a fault.\<close>

definition read_slot :: "state \<Rightarrow> bptr \<Rightarrow> size_t \<Rightarrow> fault + addr" where
  "read_slot s p i =
     (case p of
        Inline_slot t \<Rightarrow> if i = 0 then Inr (h_one (tables s t)) else Inl Invalid_access
      | Block b \<Rightarrow>
          (case blocks s b of
             None \<Rightarrow> Inl Invalid_access
           | Some xs \<Rightarrow> if unat i < length xs then Inr (xs ! unat i) else Inl Invalid_access))"

definition write_slot :: "state \<Rightarrow> bptr \<Rightarrow> size_t \<Rightarrow> addr \<Rightarrow> fault + state" where
  "write_slot s p i v =
     (case p of
        Inline_slot t \<Rightarrow>
          if i = 0 then Inr (s\<lparr>tables := (tables s)(t := (tables s t)\<lparr>h_one := v\<rparr>)\<rparr>)
          else Inl Invalid_access
      | Block b \<Rightarrow>
          (case blocks s b of
             None \<Rightarrow> Inl Invalid_access
           | Some xs \<Rightarrow>
               if unat i < length xs then Inr (s\<lparr>blocks := (blocks s)(b \<mapsto> xs[unat i := v])\<rparr>)
               else Inl Invalid_access))"

definition read_link :: "state \<Rightarrow> link \<Rightarrow> fault + addr" where
  "read_link s l =
     (case l of
        Slot p i \<Rightarrow> read_slot s p i
      | Next_field a \<Rightarrow> if a = NULL then Inl Invalid_access else Inr (node_next s a))"

definition write_link :: "state \<Rightarrow> link \<Rightarrow> addr \<Rightarrow> fault + state" where
  "write_link s l v =
     (case l of
        Slot p i \<Rightarrow> write_slot s p i v
      | Next_field a \<Rightarrow>
          if a = NULL then Inl Invalid_access
          else Inr (s\<lparr>node_next := (node_next s)(a := v)\<rparr>))"

subsection \<open>The allocator and the fast-insert primitive\<close>

text \<open>
  Modelled from the spec: \<^verbatim>\<open>xmalloc\<close> and \<^verbatim>\<open>free\<close> are declared outside \<^verbatim>\<open>src/\<close>
  (\<^verbatim>\<open>util.h\<close>, the C library). Section 6 of the spec: "a process-wide allocate/free
  pair used only for the bucket array; allocation failure is assumed to be fatal/abort at
  the allocator boundary". The argument is the byte count, a \<^verbatim>\<open>size_t\<close>, as the caller
  computed it. A bucket slot is a \<^verbatim>\<open>struct hmap_node *\<close>, 8 bytes wide where \<^verbatim>\<open>size_t\<close>
  has 64 bits, so a block of \<open>nbytes\<close> bytes holds \<open>nbytes div 8\<close> slots. The model allocates
  such a block, which no live pointer refers to, filled with whatever fresh memory holds.
\<close>

definition xmalloc :: "state \<Rightarrow> size_t \<Rightarrow> bptr \<times> state" where
  "xmalloc s nbytes =
     (Block (next_block s),
      s\<lparr>blocks := (blocks s)(next_block s \<mapsto> map (fresh_mem s) [0..<unat nbytes div 8]),
        next_block := Suc (next_block s)\<rparr>)"

definition free :: "state \<Rightarrow> bptr \<Rightarrow> fault + state" where
  "free s p =
     (case p of
        Inline_slot t \<Rightarrow> Inl Invalid_access
      | Block b \<Rightarrow>
          (case blocks s b of
             None \<Rightarrow> Inl Invalid_access
           | Some xs \<Rightarrow> Inr (s\<lparr>blocks := (blocks s)(b := None)\<rparr>)))"

text \<open>
  Modelled from the spec: \<^verbatim>\<open>hmap_insert_fast\<close> is defined in \<^verbatim>\<open>hmap.h\<close>, which is not
  under \<^verbatim>\<open>src/\<close>. Section 6 of the spec: "given a table, a node, and its hash, thread the
  node onto the head of bucket \<^verbatim>\<open>hash & mask\<close> and increment \<^verbatim>\<open>n\<close>, performing no capacity
  check and no duplicate check"; section 3: \<^verbatim>\<open>hash\<close> is "the precomputed hash value
  supplied by the client at insertion".
\<close>

definition hmap_insert_fast :: "state \<Rightarrow> href \<Rightarrow> addr \<Rightarrow> size_t \<Rightarrow> fault + state" where
  "hmap_insert_fast s hmap node hash =
     (if node = NULL then Inl Invalid_access
      else
        let bucket = hash AND h_mask (tables s hmap) in
        case read_slot s (h_buckets (tables s hmap)) bucket of
          Inl e \<Rightarrow> Inl e
        | Inr head \<Rightarrow>
            let s1 = s\<lparr>node_hash := (node_hash s)(node := hash),
                       node_next := (node_next s)(node := head)\<rparr> in
            (case write_slot s1 (h_buckets (tables s1 hmap)) bucket node of
               Inl e \<Rightarrow> Inl e
             | Inr s2 \<Rightarrow>
                 Inr (s2\<lparr>tables := (tables s2)
                        (hmap := (tables s2 hmap)\<lparr>h_n := h_n (tables s2 hmap) + 1\<rparr>)\<rparr>)))"

section \<open>Table lifecycle\<close>

definition hmap_init :: "state \<Rightarrow> href \<Rightarrow> state" where
  "hmap_init s hmap =
     s\<lparr>tables := (tables s)
        (hmap := \<lparr>h_buckets = Inline_slot hmap, h_one = NULL, h_mask = 0, h_n = 0\<rparr>)\<rparr>"

definition hmap_destroy :: "state \<Rightarrow> href \<Rightarrow> fault + state" where
  "hmap_destroy s hmap =
     (if h_buckets (tables s hmap) \<noteq> Inline_slot hmap then free s (h_buckets (tables s hmap))
      else Inr s)"

text \<open>
  \<^verbatim>\<open>memset(p, 0, nbytes)\<close>: the first \<open>nbytes\<close> bytes of the object at \<open>p\<close>, that is its
  first \<open>nbytes div 8\<close> slots, become \<^verbatim>\<open>NULL\<close>. In \<open>hmap_clear\<close> (line 58) the byte count is
  \<^verbatim>\<open>(hmap->mask + 1) * sizeof *hmap->buckets\<close>, computed in \<^verbatim>\<open>size_t\<close>, where it wraps.
\<close>

definition memset_slots :: "state \<Rightarrow> bptr \<Rightarrow> size_t \<Rightarrow> fault + state" where
  "memset_slots s p nbytes =
     (let k = unat nbytes div 8 in
      case p of
        Inline_slot t \<Rightarrow>
          if k = 0 then Inr s
          else if k = 1 then Inr (s\<lparr>tables := (tables s)(t := (tables s t)\<lparr>h_one := NULL\<rparr>)\<rparr>)
          else Inl Invalid_access
      | Block b \<Rightarrow>
          (case blocks s b of
             None \<Rightarrow> Inl Invalid_access
           | Some xs \<Rightarrow>
               if k \<le> length xs
               then Inr (s\<lparr>blocks := (blocks s)(b \<mapsto> replicate k NULL @ drop k xs)\<rparr>)
               else Inl Invalid_access))"

definition hmap_clear :: "state \<Rightarrow> href \<Rightarrow> fault + state" where
  "hmap_clear s hmap =
     (if h_n (tables s hmap) > 0
      then
        let s1 = s\<lparr>tables := (tables s)(hmap := (tables s hmap)\<lparr>h_n := 0\<rparr>)\<rparr> in
        memset_slots s1 (h_buckets (tables s1 hmap)) ((h_mask (tables s1 hmap) + 1) * 8)
      else Inr s)"

definition hmap_moved :: "state \<Rightarrow> href \<Rightarrow> state" where
  "hmap_moved s hmap =
     (if h_mask (tables s hmap) = 0
      then s\<lparr>tables := (tables s)(hmap := (tables s hmap)\<lparr>h_buckets := Inline_slot hmap\<rparr>)\<rparr>
      else s)"

definition hmap_swap :: "state \<Rightarrow> href \<Rightarrow> href \<Rightarrow> state" where
  "hmap_swap s a b =
     (let tmp = tables s a;
          s1 = s\<lparr>tables := (tables s)(a := tables s b)\<rparr>;
          s2 = s1\<lparr>tables := (tables s1)(b := tmp)\<rparr>;
          s3 = hmap_moved s2 a
      in hmap_moved s3 b)"

section \<open>Capacity planner\<close>

definition calc_mask :: "size_t \<Rightarrow> size_t" where
  "calc_mask capacity =
     (let mask = capacity div 2;
          mask = mask OR drop_bit 1 mask;
          mask = mask OR drop_bit 2 mask;
          mask = mask OR drop_bit 4 mask;
          mask = mask OR drop_bit 8 mask;
          mask = mask OR drop_bit 16 mask;
          mask = mask OR drop_bit 32 mask;
          mask = mask OR push_bit 1 (mask AND 1)
      in mask)"

text \<open>
  The spec's wording of the planner, for comparison with \<open>calc_mask\<close>: the number of
  binary digits of \<open>m\<close>, and \<open>m\<close> rounded up to the smallest value of the form \<open>2^k - 1\<close>.
\<close>

fun bit_length :: "nat \<Rightarrow> nat" where
  "bit_length m = (if m = 0 then 0 else Suc (bit_length (m div 2)))"

declare bit_length.simps [simp del]

definition round_up_mask :: "nat \<Rightarrow> nat" where
  "round_up_mask m = 2 ^ bit_length m - 1"

section \<open>Resize engine\<close>

text \<open>Lines 96 to 98: \<^verbatim>\<open>for (i = 0; i <= tmp.mask; i++) tmp.buckets[i] = NULL;\<close>\<close>

partial_function (option) clear_loop :: "state \<Rightarrow> href \<Rightarrow> size_t \<Rightarrow> (fault + state) option" where
  "clear_loop s t i =
     (if i \<le> h_mask (tables s t)
      then and_then (Some (write_slot s (h_buckets (tables s t)) i NULL))
             (\<lambda>s'. clear_loop s' t (i + 1))
      else Some (Inr s))"

text \<open>
  Lines 103 to 107: the walk along one chain. \<^verbatim>\<open>next\<close> is read before the node is
  filed in \<^verbatim>\<open>tmp\<close>.
\<close>

partial_function (option) migrate_chain :: "state \<Rightarrow> addr \<Rightarrow> (fault + state) option" where
  "migrate_chain s node =
     (if node \<noteq> NULL
      then
        let next = node_next s node in
        and_then (Some (hmap_insert_fast s Resize_tmp node (node_hash s node)))
          (\<lambda>s'. migrate_chain s' next)
      else Some (Inr s))"

text \<open>Lines 100 to 111: the loop over the buckets of \<^verbatim>\<open>hmap\<close>.\<close>

partial_function (option) migrate_buckets :: "state \<Rightarrow> href \<Rightarrow> size_t \<Rightarrow> (fault + state) option" where
  "migrate_buckets s hmap i =
     (if i \<le> h_mask (tables s hmap)
      then
        and_then (Some (read_slot s (h_buckets (tables s hmap)) i))
          (\<lambda>node. and_then (migrate_chain s node) (\<lambda>s'. migrate_buckets s' hmap (i + 1)))
      else Some (Inr s))"

text \<open>
  Lines 84 to 114. Line 94 is \<^verbatim>\<open>tmp.buckets = xmalloc(sizeof *tmp.buckets * (new_mask + 1))\<close>:
  the product is taken in \<^verbatim>\<open>size_t\<close> with \<^verbatim>\<open>sizeof *tmp.buckets = 8\<close>, and wraps.
\<close>

definition resize :: "state \<Rightarrow> href \<Rightarrow> size_t \<Rightarrow> (fault + state) option" where
  "resize s hmap new_mask =
     (if new_mask AND (new_mask + 1) \<noteq> 0 then Some (Inl Assertion_failed)
      else if new_mask = - 1 then Some (Inl Assertion_failed)
      else
        let s0 = hmap_init s Resize_tmp in
        and_then
          (if new_mask \<noteq> 0
           then
             let (p, s1) = xmalloc s0 (8 * (new_mask + 1));
                 s2 = s1\<lparr>tables := (tables s1)(Resize_tmp := (tables s1 Resize_tmp)\<lparr>h_buckets := p\<rparr>)\<rparr>;
                 s3 = s2\<lparr>tables := (tables s2)(Resize_tmp := (tables s2 Resize_tmp)\<lparr>h_mask := new_mask\<rparr>)\<rparr>
             in clear_loop s3 Resize_tmp 0
           else Some (Inr s0))
          (\<lambda>s4. and_then (migrate_buckets s4 hmap 0)
             (\<lambda>s5. Some (hmap_destroy (hmap_swap s5 hmap Resize_tmp) Resize_tmp))))"

definition hmap_expand :: "state \<Rightarrow> href \<Rightarrow> (fault + state) option" where
  "hmap_expand s hmap =
     (let new_mask = calc_mask (h_n (tables s hmap)) in
      if new_mask > h_mask (tables s hmap) then resize s hmap new_mask else Some (Inr s))"

definition hmap_shrink :: "state \<Rightarrow> href \<Rightarrow> (fault + state) option" where
  "hmap_shrink s hmap =
     (let new_mask = calc_mask (h_n (tables s hmap)) in
      if new_mask < h_mask (tables s hmap) then resize s hmap new_mask else Some (Inr s))"

definition hmap_reserve :: "state \<Rightarrow> href \<Rightarrow> size_t \<Rightarrow> (fault + state) option" where
  "hmap_reserve s hmap n =
     (let new_mask = calc_mask n in
      if new_mask > h_mask (tables s hmap) then resize s hmap new_mask else Some (Inr s))"

section \<open>Relocation tracker\<close>

text \<open>
  Lines 178 to 180: \<^verbatim>\<open>while (*bucket != old_node) bucket = &(*bucket)->next;\<close>. Taking
  the address of the \<^verbatim>\<open>next\<close> field reads nothing; the following \<^verbatim>\<open>*bucket\<close> does.
\<close>

partial_function (option) find_link :: "state \<Rightarrow> link \<Rightarrow> addr \<Rightarrow> (fault + link) option" where
  "find_link s bucket old_node =
     and_then (Some (read_link s bucket))
       (\<lambda>p. if p \<noteq> old_node then find_link s (Next_field p) old_node else Some (Inr bucket))"

definition hmap_node_moved :: "state \<Rightarrow> href \<Rightarrow> addr \<Rightarrow> addr \<Rightarrow> (fault + state) option" where
  "hmap_node_moved s hmap old_node node =
     (if node = NULL then Some (Inl Invalid_access)
      else
        and_then
          (find_link s
             (Slot (h_buckets (tables s hmap)) (node_hash s node AND h_mask (tables s hmap)))
             old_node)
          (\<lambda>bucket. Some (write_link s bucket node)))"

section \<open>Removal\<close>

text \<open>
  Modelled from the spec: \<^verbatim>\<open>hmap_remove\<close> is defined in \<^verbatim>\<open>hmap.h\<close>, which is not
  under \<^verbatim>\<open>src/\<close>. Sections 1 and 3 of the spec name removal a "straightforward
  bucket-chain operation" on the singly linked chain of bucket \<^verbatim>\<open>hash & mask\<close>, with
  \<^verbatim>\<open>n\<close> the count of the nodes stored: the link that points at the node is found as in
  \<open>hmap_node_moved\<close>, it is set to the node's successor, and \<^verbatim>\<open>n\<close> is decremented.
\<close>

definition hmap_remove :: "state \<Rightarrow> href \<Rightarrow> addr \<Rightarrow> (fault + state) option" where
  "hmap_remove s hmap node =
     (if node = NULL then Some (Inl Invalid_access)
      else
        and_then
          (find_link s
             (Slot (h_buckets (tables s hmap)) (node_hash s node AND h_mask (tables s hmap)))
             node)
          (\<lambda>bucket.
             and_then (Some (write_link s bucket (node_next s node)))
               (\<lambda>s'. Some (Inr (s'\<lparr>tables := (tables s')
                  (hmap := (tables s' hmap)\<lparr>h_n := h_n (tables s' hmap) - 1\<rparr>)\<rparr>)))))"

section \<open>Position cursor\<close>

text \<open>
  Lines 242 to 254: the walk along one chain, up to the node at index \<^verbatim>\<open>offset\<close>. It
  returns that node, or \<open>None\<close> when the chain ends first.
\<close>

function scan_chain :: "state \<Rightarrow> addr \<Rightarrow> size_t \<Rightarrow> size_t \<Rightarrow> addr option" where
  "scan_chain s node n_idx offset =
     (if node \<noteq> NULL
      then if n_idx = offset then Some node
           else scan_chain s (node_next s node) (n_idx + 1) offset
      else None)"
  by pat_completeness auto
termination
proof (relation "measure (\<lambda>(s, node, n_idx, offset). unat (offset - n_idx))")
  show "wf (measure (\<lambda>(s, node, n_idx, offset). unat (offset - n_idx)))"
    by simp
next
  fix s :: state and node n_idx offset :: size_t
  assume "n_idx \<noteq> offset"
  then have nz: "offset - n_idx \<noteq> 0" by simp
  have eq: "offset - (n_idx + 1) = offset - n_idx - 1" by simp
  from nz have "unat (offset - n_idx - 1) = unat (offset - n_idx) - 1"
    by (rule unat_minus_one)
  moreover from nz have "0 < unat (offset - n_idx)"
    by (simp add: unat_gt_0)
  ultimately have "unat (offset - (n_idx + 1)) < unat (offset - n_idx)"
    unfolding eq by linarith
  then show "((s, node_next s node, n_idx + 1, offset), (s, node, n_idx, offset))
      \<in> measure (\<lambda>(s, node, n_idx, offset). unat (offset - n_idx))"
    by simp
qed

declare scan_chain.simps [simp del]

text \<open>Lines 238 to 256: the loop over the buckets from \<^verbatim>\<open>*bucketp\<close> on.\<close>

partial_function (option) at_position_loop ::
  "state \<Rightarrow> href \<Rightarrow> size_t \<Rightarrow> size_t \<Rightarrow> (fault + addr \<times> uint32_t \<times> uint32_t) option" where
  "at_position_loop s hmap offset b_idx =
     (if b_idx \<le> h_mask (tables s hmap)
      then
        and_then (Some (read_slot s (h_buckets (tables s hmap)) b_idx))
          (\<lambda>head.
             case scan_chain s head 0 offset of
               Some node \<Rightarrow>
                 if node_next s node \<noteq> NULL
                 then Some (Inr (node,
                        ucast (node_hash s node AND h_mask (tables s hmap)),
                        ucast (offset + 1)))
                 else Some (Inr (node,
                        ucast ((node_hash s node AND h_mask (tables s hmap)) + 1),
                        0))
             | None \<Rightarrow> at_position_loop s hmap 0 (b_idx + 1))
      else Some (Inr (NULL, 0, 0)))"

definition hmap_at_position ::
  "state \<Rightarrow> href \<Rightarrow> uint32_t \<times> uint32_t \<Rightarrow> (fault + addr \<times> uint32_t \<times> uint32_t) option" where
  "hmap_at_position s hmap cursor =
     (let offset = ucast (snd cursor) in at_position_loop s hmap offset (ucast (fst cursor)))"

text \<open>
  The caller's loop of section 4.5 of the spec: call \<open>hmap_at_position\<close> again and again,
  passing the cursor on, until it returns \<^verbatim>\<open>NULL\<close>. \<open>traverse k\<close> makes at most \<open>k\<close>
  calls and yields the nodes visited and the cursor left by the last call, or \<open>None\<close>
  when \<open>k\<close> calls do not exhaust the traversal.
\<close>

fun traverse ::
  "nat \<Rightarrow> state \<Rightarrow> href \<Rightarrow> uint32_t \<times> uint32_t \<Rightarrow> (addr list \<times> uint32_t \<times> uint32_t) option" where
  "traverse 0 s hmap cursor = None"
| "traverse (Suc k) s hmap cursor =
     (case hmap_at_position s hmap cursor of
        Some (Inr (node, cursor')) \<Rightarrow>
          if node = NULL then Some ([], cursor')
          else map_option (\<lambda>(ns, c). (node # ns, c)) (traverse k s hmap cursor')
      | _ \<Rightarrow> None)"

section \<open>Sequences of operations\<close>

text \<open>
  The operations a client applies to one table, and a run of them that stops at the
  first call that does not return.
\<close>

datatype op = Insert addr size_t | Remove addr | Expand | Shrink | Reserve size_t | Clear

fun apply_op :: "state \<Rightarrow> href \<Rightarrow> op \<Rightarrow> (fault + state) option" where
  "apply_op s hmap (Insert node hash) = Some (hmap_insert_fast s hmap node hash)"
| "apply_op s hmap (Remove node) = hmap_remove s hmap node"
| "apply_op s hmap Expand = hmap_expand s hmap"
| "apply_op s hmap Shrink = hmap_shrink s hmap"
| "apply_op s hmap (Reserve n) = hmap_reserve s hmap n"
| "apply_op s hmap Clear = Some (hmap_clear s hmap)"

fun run :: "state \<Rightarrow> href \<Rightarrow> op list \<Rightarrow> (fault + state) option" where
  "run s hmap [] = Some (Inr s)"
| "run s hmap (x # xs) = and_then (apply_op s hmap x) (\<lambda>s'. run s' hmap xs)"

declare clear_loop.simps [code] migrate_chain.simps [code] migrate_buckets.simps [code]
declare find_link.simps [code] at_position_loop.simps [code]

section \<open>Auxiliary notions for the proofs\<close>

text \<open>The cascade of shifts of \<open>calc_mask\<close> alone, before the floor of four buckets.\<close>

definition spread :: "size_t \<Rightarrow> size_t" where
  "spread m =
     (let mask = m;
          mask = mask OR drop_bit 1 mask;
          mask = mask OR drop_bit 2 mask;
          mask = mask OR drop_bit 4 mask;
          mask = mask OR drop_bit 8 mask;
          mask = mask OR drop_bit 16 mask;
          mask = mask OR drop_bit 32 mask
      in mask)"

text \<open>Bit \<open>n\<close> of \<open>x\<close> is set exactly when one of the \<open>d\<close> bits of \<open>m\<close> from \<open>n\<close> on is set.\<close>

definition window :: "size_t \<Rightarrow> size_t \<Rightarrow> nat \<Rightarrow> bool" where
  "window x m d \<longleftrightarrow> (\<forall>n. bit x n \<longleftrightarrow> (\<exists>j. n \<le> j \<and> j < n + d \<and> bit m j))"

subsection \<open>What a table holds\<close>

text \<open>
  \<open>is_chain nxt p ps\<close>: following \<^verbatim>\<open>next\<close> from \<open>p\<close> visits exactly the nodes \<open>ps\<close>
  and then reaches \<^verbatim>\<open>NULL\<close>.
\<close>

fun is_chain :: "(addr \<Rightarrow> addr) \<Rightarrow> addr \<Rightarrow> addr list \<Rightarrow> bool" where
  "is_chain nxt p [] \<longleftrightarrow> p = NULL"
| "is_chain nxt p (x # xs) \<longleftrightarrow> p = x \<and> x \<noteq> NULL \<and> is_chain nxt (nxt x) xs"

text \<open>The bucket array \<^verbatim>\<open>buckets[0 .. mask]\<close> of a table, if \<^verbatim>\<open>buckets\<close> points at an object.\<close>

definition slots :: "state \<Rightarrow> href \<Rightarrow> addr list option" where
  "slots s h =
     (case h_buckets (tables s h) of
        Inline_slot t \<Rightarrow> Some [h_one (tables s t)]
      | Block b \<Rightarrow> blocks s b)"

text \<open>
  The inline-slot invariant of section 3 of the spec: with \<^verbatim>\<open>mask == 0\<close> the field
  \<^verbatim>\<open>buckets\<close> points at the table's own slot \<^verbatim>\<open>one\<close>, and with \<^verbatim>\<open>mask > 0\<close> at an
  allocated block.
\<close>

definition inline_ok :: "state \<Rightarrow> href \<Rightarrow> bool" where
  "inline_ok s h =
     (case h_buckets (tables s h) of
        Inline_slot t \<Rightarrow> t = h \<and> h_mask (tables s h) = 0
      | Block b \<Rightarrow> h_mask (tables s h) \<noteq> 0)"

text \<open>
  The data-model invariants of section 3 of the spec, for the table at \<open>h\<close> whose bucket
  \<open>i\<close> holds the chain \<open>css ! i\<close>: \<^verbatim>\<open>mask + 1\<close> is a power of two, \<^verbatim>\<open>buckets\<close> has
  exactly \<^verbatim>\<open>mask + 1\<close> slots, every slot heads a chain filed under its own index, and
  \<^verbatim>\<open>n\<close> counts the nodes.
\<close>

definition hmap_rep :: "state \<Rightarrow> href \<Rightarrow> addr list list \<Rightarrow> bool" where
  "hmap_rep s h css \<longleftrightarrow>
     inline_ok s h
     \<and> h_mask (tables s h) AND (h_mask (tables s h) + 1) = 0
     \<and> h_mask (tables s h) \<noteq> - 1
     \<and> (case slots s h of
          None \<Rightarrow> False
        | Some xs \<Rightarrow>
            length xs = unat (h_mask (tables s h)) + 1
            \<and> list_all2 (is_chain (node_next s)) xs css)
     \<and> (\<forall>i < length css. \<forall>p \<in> set (css ! i). unat (node_hash s p AND h_mask (tables s h)) = i)
     \<and> unat (h_n (tables s h)) = length (concat css)"


text \<open>
  \<open>frame s s' t\<close>: between \<open>s\<close> and \<open>s'\<close> no table struct other than \<open>t\<close>, no block other
  than the one of \<open>t\<close> and nothing of the allocator has changed, and \<open>t\<close> has kept its
  \<^verbatim>\<open>buckets\<close> and \<^verbatim>\<open>mask\<close>.
\<close>

definition frame :: "state \<Rightarrow> state \<Rightarrow> href \<Rightarrow> bool" where
  "frame s s' t \<longleftrightarrow>
     (\<forall>r. r \<noteq> t \<longrightarrow> tables s' r = tables s r)
     \<and> (\<forall>b. Block b \<noteq> h_buckets (tables s t) \<longrightarrow> blocks s' b = blocks s b)
     \<and> (\<forall>b. blocks s' b = None \<longleftrightarrow> blocks s b = None)
     \<and> next_block s' = next_block s
     \<and> fresh_mem s' = fresh_mem s
     \<and> h_buckets (tables s' t) = h_buckets (tables s t)
     \<and> h_mask (tables s' t) = h_mask (tables s t)"


text \<open>
  \<open>is_seg nxt p ps q\<close>: following \<^verbatim>\<open>next\<close> from \<open>p\<close> visits exactly the nodes \<open>ps\<close>
  and then reaches \<open>q\<close>.
\<close>

fun is_seg :: "(addr \<Rightarrow> addr) \<Rightarrow> addr \<Rightarrow> addr list \<Rightarrow> addr \<Rightarrow> bool" where
  "is_seg nxt p [] q \<longleftrightarrow> p = q"
| "is_seg nxt p (x # xs) q \<longleftrightarrow> p = x \<and> x \<noteq> NULL \<and> is_seg nxt (nxt x) xs q"

text \<open>The chains \<open>css\<close> with the address \<open>old_node\<close> replaced by \<open>node\<close>, in place.\<close>

definition relocate :: "addr \<Rightarrow> addr \<Rightarrow> addr list list \<Rightarrow> addr list list" where
  "relocate old_node node css = map (map (\<lambda>q. if q = old_node then node else q)) css"

text \<open>
  What one call of the cursor should do on the chains \<open>css\<close> from bucket \<open>b\<close>, offset
  \<open>ofs\<close>: the node found and the new cursor, truncated to 32 bits.
\<close>

function at_spec :: "addr list list \<Rightarrow> nat \<Rightarrow> nat \<Rightarrow> addr \<times> uint32_t \<times> uint32_t" where
  "at_spec css b ofs =
     (if b < length css
      then if ofs < length (css ! b)
           then if Suc ofs < length (css ! b)
                then (css ! b ! ofs, of_nat b, of_nat (Suc ofs))
                else (css ! b ! ofs, of_nat (Suc b), 0)
           else at_spec css (Suc b) 0
      else (NULL, 0, 0))"
  by pat_completeness auto
termination
  by (relation "measure (\<lambda>(css, b, ofs). length css - b)") auto

declare at_spec.simps [simp del]


subsection \<open>Example stores\<close>

text \<open>Every table initialised by \<open>hmap_init\<close>, no block allocated, no node linked.\<close>

definition empty_store :: state where
  "empty_store =
     \<lparr>tables = (\<lambda>h. \<lparr>h_buckets = Inline_slot h, h_one = NULL, h_mask = 0, h_n = 0\<rparr>),
      blocks = (\<lambda>b. None), next_block = 0, fresh_mem = (\<lambda>i. NULL),
      node_hash = (\<lambda>p. 0), node_next = (\<lambda>p. NULL)\<rparr>"

text \<open>
  Table 0 with the single inline bucket holding the chain 32, 16 (hashes 2 and 1).
\<close>

definition inline_store :: state where
  "inline_store =
     empty_store
       \<lparr>tables := (tables empty_store)
          (Table 0 := \<lparr>h_buckets = Inline_slot (Table 0), h_one = 32, h_mask = 0, h_n = 2\<rparr>),
        node_hash := (\<lambda>p. 0)(16 := 1, 32 := 2),
        node_next := (\<lambda>p. NULL)(32 := 16)\<rparr>"

text \<open>
  Table 0 with four buckets in block 0: bucket 1 holds the chain 80, 16 (hashes 5 and 1)
  and bucket 2 holds the node 32 (hash 2).
\<close>

definition block_store :: state where
  "block_store =
     empty_store
       \<lparr>tables := (tables empty_store)
          (Table 0 := \<lparr>h_buckets = Block 0, h_one = NULL, h_mask = 3, h_n = 3\<rparr>),
        blocks := (\<lambda>b. None)(0 \<mapsto> [NULL, 80, 32, NULL]),
        next_block := 1,
        node_hash := (\<lambda>p. 0)(16 := 1, 32 := 2, 80 := 5),
        node_next := (\<lambda>p. NULL)(80 := 16)\<rparr>"

text \<open>
  The store \<open>block_store\<close> after the node 16 has been moved to the address 96: the new
  storage holds the copy of its fields, the old storage holds zeros, and the chain of
  bucket 1 still links the old address.
\<close>

definition moved_store :: state where
  "moved_store =
     block_store
       \<lparr>node_hash := (node_hash block_store)(16 := 0, 96 := node_hash block_store 16),
        node_next := (node_next block_store)(16 := 0, 96 := node_next block_store 16)\<rparr>"

text \<open>The store \<open>inline_store\<close> with a second table of four buckets that holds the node 80.\<close>

definition two_table_store :: state where
  "two_table_store =
     inline_store
       \<lparr>tables := (tables inline_store)
          (Table 1 := \<lparr>h_buckets = Block 0, h_one = NULL, h_mask = 3, h_n = 1\<rparr>),
        blocks := (\<lambda>b. None)(0 \<mapsto> [NULL, 80, NULL, NULL]),
        next_block := 1,
        node_hash := (node_hash inline_store)(80 := 5)\<rparr>"

text \<open>
  Table 0 with mask \<open>M\<close> in block 0, whose only node 16 (hash \<open>M\<close>) lies in the last
  bucket.
\<close>

definition single_node_store :: "size_t \<Rightarrow> state" where
  "single_node_store M =
     empty_store
       \<lparr>tables := (tables empty_store)
          (Table 0 := \<lparr>h_buckets = Block 0, h_one = NULL, h_mask = M, h_n = 1\<rparr>),
        blocks := (\<lambda>b. None)(0 \<mapsto> replicate (unat M) NULL @ [16]),
        next_block := 1,
        node_hash := (\<lambda>p. 0)(16 := M)\<rparr>"

section \<open>The capacity planner rounds up to a mask\<close>

lemma window_step:
  fixes x m :: "'a::len word"
  assumes "\<And>n. bit x n \<longleftrightarrow> (\<exists>j. n \<le> j \<and> j < n + d \<and> bit m j)"
  shows "bit (x OR drop_bit d x) n \<longleftrightarrow> (\<exists>j. n \<le> j \<and> j < n + 2 * d \<and> bit m j)"
proof -
  have "bit (x OR drop_bit d x) n \<longleftrightarrow> bit x n \<or> bit x (n + d)"
    by (simp add: bit_or_iff bit_drop_bit_eq add.commute)
  also have "\<dots> \<longleftrightarrow> (\<exists>j. n \<le> j \<and> j < n + d \<and> bit m j) \<or> (\<exists>j. n + d \<le> j \<and> j < n + d + d \<and> bit m j)"
    by (simp only: assms)
  also have "\<dots> \<longleftrightarrow> (\<exists>j. n \<le> j \<and> j < n + 2 * d \<and> bit m j)"
    by (metis (no_types, opaque_lifting) add.assoc le_add1 le_trans mult_2 not_le trans_less_add1)
  finally show ?thesis .
qed

lemma calc_mask_spread:
  "calc_mask c = spread (c div 2) OR push_bit 1 (spread (c div 2) AND 1)"
  by (simp only: calc_mask_def spread_def Let_def)

lemma window_double: "window x m d \<Longrightarrow> window (x OR drop_bit d x) m (2 * d)"
  unfolding window_def using window_step [of x d m] by blast

lemma bit_spread: "bit (spread m) n \<longleftrightarrow> (\<exists>j. n \<le> j \<and> bit m j)"
proof -
  have "window m m 1"
    unfolding window_def by (metis Suc_eq_plus1 le_antisym less_Suc_eq_le order_refl)
  from window_double [OF this] have w2: "window (m OR drop_bit 1 m) m 2" by simp
  from window_double [OF w2] have w4: "window ((m OR drop_bit 1 m) OR drop_bit 2 (m OR drop_bit 1 m)) m 4"
    by simp
  note w8 = window_double [OF w4, simplified mult_2 numeral_Bit0 [symmetric]]
  note w16 = window_double [OF w8, simplified mult_2 numeral_Bit0 [symmetric]]
  note w32 = window_double [OF w16, simplified mult_2 numeral_Bit0 [symmetric]]
  note w64 = window_double [OF w32, simplified mult_2 numeral_Bit0 [symmetric]]
  have "window (spread m) m 64"
    unfolding spread_def Let_def using w64 by simp
  then have "bit (spread m) n \<longleftrightarrow> (\<exists>j. n \<le> j \<and> j < n + 64 \<and> bit m j)"
    unfolding window_def by blast
  also have "\<dots> \<longleftrightarrow> (\<exists>j. n \<le> j \<and> bit m j)"
  proof
    assume "\<exists>j. n \<le> j \<and> bit m j"
    then obtain j where j: "n \<le> j" "bit m j" by blast
    then have "j < 64" using bit_imp_le_length [of m j] by simp
    with j show "\<exists>j. n \<le> j \<and> j < n + 64 \<and> bit m j" by (intro exI [of _ j]) simp
  qed blast
  finally show ?thesis .
qed

lemma bit_length_le_iff: "bit_length m \<le> k \<longleftrightarrow> m < 2 ^ k"
proof (induction m arbitrary: k rule: bit_length.induct)
  case (1 m)
  show ?case
  proof (cases "m = 0")
    case True
    then show ?thesis by (simp add: bit_length.simps)
  next
    case False
    show ?thesis
    proof (cases k)
      case 0
      with False show ?thesis by (simp add: bit_length.simps [of m])
    next
      case (Suc k')
      have "bit_length m \<le> Suc k' \<longleftrightarrow> bit_length (m div 2) \<le> k'"
        using False by (simp add: bit_length.simps [of m])
      also have "\<dots> \<longleftrightarrow> m div 2 < 2 ^ k'" using 1 [OF False] .
      also have "\<dots> \<longleftrightarrow> m < 2 ^ Suc k'" by auto
      finally show ?thesis using Suc by simp
    qed
  qed
qed

lemma upper_bits_iff:
  fixes m :: size_t
  shows "(\<exists>j. n \<le> j \<and> bit m j) \<longleftrightarrow> \<not> unat m < 2 ^ n"
proof -
  have "(\<exists>j. n \<le> j \<and> bit m j) \<longleftrightarrow> (\<exists>k. bit (drop_bit n m) k)"
  proof
    assume "\<exists>j. n \<le> j \<and> bit m j"
    then obtain j where "n \<le> j" "bit m j" by blast
    then have "bit (drop_bit n m) (j - n)" by (simp add: bit_drop_bit_eq)
    then show "\<exists>k. bit (drop_bit n m) k" ..
  next
    assume "\<exists>k. bit (drop_bit n m) k"
    then obtain k where "bit m (n + k)" by (auto simp add: bit_drop_bit_eq)
    then show "\<exists>j. n \<le> j \<and> bit m j" by (intro exI [of _ "n + k"]) simp
  qed
  also have "\<dots> \<longleftrightarrow> drop_bit n m \<noteq> 0"
    using bit_imp_le_length [of "drop_bit n m"] by (auto simp add: bit_eq_iff)
  also have "\<dots> \<longleftrightarrow> unat (drop_bit n m) \<noteq> 0"
    by (simp only: unat_eq_0)
  also have "\<dots> \<longleftrightarrow> unat m div 2 ^ n \<noteq> 0"
    by (simp only: unat_drop_bit_eq) (simp only: drop_bit_eq_div)
  also have "\<dots> \<longleftrightarrow> \<not> unat m < 2 ^ n"
    by (simp add: div_eq_0_iff)
  finally show ?thesis .
qed

lemma spread_eq_mask: "spread m = mask (bit_length (unat m))"
proof (rule bit_word_eqI)
  fix n assume n: "n < LENGTH(64)"
  have "(\<exists>j. n \<le> j \<and> bit m j) \<longleftrightarrow> \<not> unat m < 2 ^ n"
    by (rule upper_bits_iff)
  also have "\<dots> \<longleftrightarrow> n < bit_length (unat m)"
    using bit_length_le_iff [of "unat m" n] by auto
  finally show "bit (spread m) n \<longleftrightarrow> bit (mask (bit_length (unat m)) :: size_t) n"
    using n by (simp add: bit_spread bit_mask_iff)
qed

lemma bit_length_half_le: "bit_length (unat (c :: size_t) div 2) \<le> 63"
proof -
  have "unat c < 2 ^ 64" using unsigned_less [of c] by simp
  then have "unat c div 2 < 2 ^ 63" by simp
  then show ?thesis by (simp add: bit_length_le_iff)
qed

lemma unat_half: "unat (c div 2 :: size_t) = unat c div 2"
  by (simp add: unat_div)

lemma calc_mask_eq:
  "calc_mask c = (if unat c div 2 = 0 then 0 else mask (max 2 (bit_length (unat c div 2))))"
proof -
  let ?k = "bit_length (unat c div 2)"
  have s: "spread (c div 2) = mask ?k" by (simp add: spread_eq_mask unat_half)
  show ?thesis
  proof (cases "unat c div 2 = 0")
    case True
    then have "?k = 0" by (simp add: bit_length.simps)
    with True show ?thesis by (simp add: calc_mask_spread s)
  next
    case False
    then have k: "0 < ?k" by (simp add: bit_length.simps [of "unat c div 2"])
    have one: "mask ?k AND 1 = (1 :: size_t)"
    proof (rule bit_word_eqI)
      fix n assume "n < LENGTH(64)"
      then show "bit (mask ?k AND 1 :: size_t) n = bit (1 :: size_t) n"
        using k by (auto simp add: bit_and_iff bit_mask_iff bit_1_iff)
    qed
    have "mask ?k OR push_bit 1 (mask ?k AND 1) = (mask (max 2 ?k) :: size_t)"
      unfolding one
    proof (rule bit_word_eqI)
      fix n assume "n < LENGTH(64)"
      then show "bit (mask ?k OR push_bit 1 1 :: size_t) n = bit (mask (max 2 ?k) :: size_t) n"
        using k by (cases n) (auto simp add: bit_or_iff bit_mask_iff bit_2_iff bit_1_iff)
    qed
    with False show ?thesis by (simp add: calc_mask_spread s)
  qed
qed

lemma unat_mask_size_t: "k \<le> 64 \<Longrightarrow> unat (mask k :: size_t) = 2 ^ k - 1"
proof -
  assume k: "k \<le> 64"
  have "unat (mask k :: size_t) = nat (uint (mask k :: size_t))"
    by (simp only: unat_eq_nat_uint)
  also have "\<dots> = nat (mask (min 64 k))"
    by (simp only: uint_mask_eq) simp
  also have "\<dots> = mask k" using k by (simp only: nat_mask_eq min_absorb2)
  also have "\<dots> = 2 ^ k - 1" by (simp only: mask_eq_exp_minus_1)
  finally show ?thesis .
qed

lemma unat_calc_mask:
  "unat (calc_mask c) = (if unat c div 2 = 0 then 0 else 2 ^ max 2 (bit_length (unat c div 2)) - 1)"
proof -
  have "max 2 (bit_length (unat c div 2)) \<le> 64"
    using bit_length_half_le [of c] by simp
  from unat_mask_size_t [OF this] show ?thesis
    by (simp only: calc_mask_eq split: if_splits) simp
qed



lemma bit_length_mono: "a \<le> b \<Longrightarrow> bit_length a \<le> bit_length b"
  using bit_length_le_iff [of b "bit_length b"] bit_length_le_iff [of a "bit_length b"] by simp

lemma round_up_mask_ge: "m \<le> round_up_mask m"
  using bit_length_le_iff [of m "bit_length m"] by (simp add: round_up_mask_def)

lemma round_up_mask_least: "m \<le> 2 ^ k - 1 \<Longrightarrow> round_up_mask m \<le> 2 ^ k - 1"
proof -
  assume "m \<le> 2 ^ k - 1"
  then have "m < 2 ^ k" by (simp add: Nat.le_diff_conv2 Suc_le_eq)
  then have "bit_length m \<le> k" by (simp add: bit_length_le_iff)
  then have "(2::nat) ^ bit_length m \<le> 2 ^ k" by simp
  then show ?thesis unfolding round_up_mask_def by (rule diff_le_mono)
qed

lemma bit_length_eq_0: "bit_length m = 0 \<longleftrightarrow> m = 0"
  by (simp add: bit_length.simps [of m])

lemma bit_length_0: "bit_length 0 = 0"
  by (simp add: bit_length_eq_0)

lemma round_up_mask_eq_1: "round_up_mask m = Suc 0 \<longleftrightarrow> bit_length m = Suc 0"
proof -
  have "(2::nat) ^ k - 1 = 1 \<longleftrightarrow> k = 1" for k
  proof -
    have "0 < (2::nat) ^ k" by simp
    then have "(2::nat) ^ k - 1 = 1 \<longleftrightarrow> (2::nat) ^ k = 2 ^ 1" by (simp del: zero_less_power) arith
    also have "\<dots> \<longleftrightarrow> k = 1" by (rule power_inject_exp) simp
    finally show ?thesis .
  qed
  then show ?thesis by (simp add: round_up_mask_def)
qed

lemma calc_mask_round:
  "unat (calc_mask c) = (let r = round_up_mask (unat c div 2) in if r = 1 then 3 else r)"
proof -
  let ?k = "bit_length (unat c div 2)"
  consider "?k = 0" | "?k = 1" | "2 \<le> ?k" by linarith
  then show ?thesis
  proof cases
    case 1
    then show ?thesis by (simp add: unat_calc_mask round_up_mask_def bit_length_eq_0 bit_length_0)
  next
    case 2
    then have "unat c div 2 \<noteq> 0" using bit_length_eq_0 [of "unat c div 2"] by simp
    with 2 show ?thesis by (simp add: unat_calc_mask round_up_mask_eq_1 Let_def)
  next
    case 3
    then have nz: "unat c div 2 \<noteq> 0" and "?k \<noteq> Suc 0"
      using bit_length_eq_0 [of "unat c div 2"] by auto
    then have r: "round_up_mask (unat c div 2) \<noteq> 1" by (simp add: round_up_mask_eq_1)
    have "unat (calc_mask c) = round_up_mask (unat c div 2)"
      using 3 nz by (simp add: unat_calc_mask round_up_mask_def max_def)
    with r show ?thesis by (simp add: Let_def)
  qed
qed

lemma calc_mask_mono_aux: "c1 \<le> c2 \<Longrightarrow> calc_mask c1 \<le> calc_mask c2"
proof -
  assume "c1 \<le> c2"
  then have le: "unat c1 div 2 \<le> unat c2 div 2"
    by (simp add: word_le_nat_alt div_le_mono)
  then have "max 2 (bit_length (unat c1 div 2)) \<le> max 2 (bit_length (unat c2 div 2))"
    using bit_length_mono [OF le] by simp
  then have "(2::nat) ^ max 2 (bit_length (unat c1 div 2)) \<le> 2 ^ max 2 (bit_length (unat c2 div 2))"
    by (simp only: power_increasing_iff) 
  then have "(2::nat) ^ max 2 (bit_length (unat c1 div 2)) - 1 \<le> 2 ^ max 2 (bit_length (unat c2 div 2)) - 1"
    by (rule diff_le_mono)
  with le show ?thesis
    by (simp only: word_le_nat_alt unat_calc_mask split: if_splits) simp
qed

lemma calc_mask_pow2: "calc_mask c AND (calc_mask c + 1) = 0"
proof (cases "unat c div 2 = 0")
  case True
  then show ?thesis by (simp add: calc_mask_eq)
next
  case False
  let ?k = "max 2 (bit_length (unat c div 2))"
  have "(mask ?k :: size_t) AND (mask ?k + 1) = 0"
  proof (rule bit_word_eqI)
    fix n assume "n < LENGTH(64)"
    have "(mask ?k :: size_t) + 1 = 2 ^ ?k" by (simp add: mask_eq_decr_exp)
    then show "bit ((mask ?k :: size_t) AND (mask ?k + 1)) n = bit (0 :: size_t) n"
      by (auto simp add: bit_and_iff bit_mask_iff bit_exp_iff)
  qed
  with False show ?thesis by (simp only: calc_mask_eq if_False)
qed

lemma calc_mask_not_max: "calc_mask c \<noteq> - 1"
proof -
  have "max 2 (bit_length (unat c div 2)) \<le> 63"
    using bit_length_half_le [of c] by simp
  then have "(2::nat) ^ max 2 (bit_length (unat c div 2)) \<le> 2 ^ 63"
    by (simp only: power_increasing_iff)
  then have "(2::nat) ^ max 2 (bit_length (unat c div 2)) - 1 \<le> 2 ^ 63 - 1"
    by (rule diff_le_mono)
  then have "unat (calc_mask c) \<le> 2 ^ 63 - 1"
    by (simp only: unat_calc_mask split: if_splits) simp
  moreover have "unat (- 1 :: size_t) = 18446744073709551615" by (simp add: unsigned_minus_1_eq_mask mask_eq_exp_minus_1)
  ultimately show ?thesis by auto
qed


text \<open>
  C3, as amended. \<open>calc_mask capacity\<close> is \<open>capacity / 2\<close> rounded up to the smallest
  value of the form \<open>2^k - 1\<close>, except that a rounded result of exactly 1 becomes 3; a
  rounded result of 0 (capacity 0 or 1) is returned as 0. \<open>round_up_mask m\<close> is of the
  form \<open>2^k - 1\<close>, is at least \<open>m\<close>, and is the smallest such value.
\<close>

theorem calc_mask_rounds_up:
  "unat (calc_mask c) = (let r = round_up_mask (unat c div 2) in if r = 1 then 3 else r)
   \<and> round_up_mask (unat c div 2) = 2 ^ bit_length (unat c div 2) - 1
   \<and> unat c div 2 \<le> round_up_mask (unat c div 2)
   \<and> (\<forall>k. unat c div 2 \<le> 2 ^ k - 1 \<longrightarrow> round_up_mask (unat c div 2) \<le> 2 ^ k - 1)"
  using calc_mask_round [of c] round_up_mask_ge [of "unat c div 2"] round_up_mask_least [of "unat c div 2"]
  by (simp add: round_up_mask_def)

theorem calc_mask_rounds_up_witness:
  "unat (calc_mask 5) = 3 \<and> unat (calc_mask 9) = 7 \<and> unat (calc_mask 1) = 0
   \<and> unat (9 :: size_t) div 2 \<le> 2 ^ 3 - 1 \<and> round_up_mask (unat (9 :: size_t) div 2) \<le> 2 ^ 3 - 1"
proof -
  have b: "bit_length 2 = 2" "bit_length 4 = 3" "bit_length 0 = 0"
    by (simp_all add: bit_length.simps)
  have "unat (5 :: size_t) div 2 = 2" "unat (9 :: size_t) div 2 = 4" "unat (1 :: size_t) div 2 = 0"
    by simp_all
  then show ?thesis
    using calc_mask_rounds_up [of 5] calc_mask_rounds_up [of 9] calc_mask_rounds_up [of 1]
    by (simp add: round_up_mask_def b)
qed

text \<open>
  C3 as stated fails at capacity 0: the rounded result is 0, which the claim says is
  forced up to at least 3, and \<open>calc_mask\<close> returns 0.
\<close>

theorem calc_mask_zero_not_forced:
  "round_up_mask (unat (0 :: size_t) div 2) = 0 \<and> \<not> 3 \<le> unat (calc_mask 0)"
  by (simp add: round_up_mask_def bit_length.simps calc_mask_def)

text \<open>
  C10. \<open>calc_mask\<close> is monotonically nondecreasing: a larger element count never plans a
  smaller bucket array.
\<close>

theorem calc_mask_mono: "c1 \<le> c2 \<Longrightarrow> calc_mask c1 \<le> calc_mask c2"
  by (rule calc_mask_mono_aux)

theorem calc_mask_mono_witness:
  "(5 :: size_t) \<le> 1000 \<and> calc_mask 5 \<le> calc_mask 1000"
  using calc_mask_mono [of 5 1000] by simp

section \<open>The assertions of resize\<close>

lemma write_slot_no_assert: "write_slot s p i v \<noteq> Inl Assertion_failed"
  by (simp add: write_slot_def split: bptr.splits option.splits)

lemma read_slot_no_assert: "read_slot s p i \<noteq> Inl Assertion_failed"
  by (simp add: read_slot_def split: bptr.splits option.splits)

lemma hmap_insert_fast_no_assert: "hmap_insert_fast s h p v \<noteq> Inl Assertion_failed"
  using read_slot_no_assert write_slot_no_assert
  by (auto simp add: hmap_insert_fast_def Let_def split: sum.splits)

lemma and_then_SomeE:
  assumes "and_then m f = Some r"
  obtains e where "m = Some (Inl e)" "r = Inl e" | x where "m = Some (Inr x)" "f x = Some r"
  using assms by (auto simp add: and_then_def split: option.splits sum.splits)

lemma clear_loop_no_assert:
  assumes "clear_loop s t i = Some r"
  shows "r \<noteq> Inl Assertion_failed"
  by (rule clear_loop.raw_induct [where P = "\<lambda>s t i r. r \<noteq> Inl Assertion_failed", OF _ assms])
    (auto elim!: and_then_SomeE split: if_splits simp add: write_slot_no_assert)

lemma migrate_chain_no_assert:
  assumes "migrate_chain s p = Some r"
  shows "r \<noteq> Inl Assertion_failed"
  by (rule migrate_chain.raw_induct [where P = "\<lambda>s p r. r \<noteq> Inl Assertion_failed", OF _ assms])
    (auto elim!: and_then_SomeE split: if_splits simp add: Let_def hmap_insert_fast_no_assert)

lemma migrate_buckets_no_assert:
  assumes "migrate_buckets s h i = Some r"
  shows "r \<noteq> Inl Assertion_failed"
  by (rule migrate_buckets.raw_induct [where P = "\<lambda>s h i r. r \<noteq> Inl Assertion_failed", OF _ assms])
    (auto elim!: and_then_SomeE split: if_splits simp add: read_slot_no_assert dest: migrate_chain_no_assert)

lemma free_no_assert: "free s p \<noteq> Inl Assertion_failed"
  by (simp add: free_def split: bptr.splits option.splits)

lemma hmap_destroy_no_assert: "hmap_destroy s h \<noteq> Inl Assertion_failed"
  by (simp add: hmap_destroy_def free_no_assert)

lemma resize_assert_iff:
  "resize s h m = Some (Inl Assertion_failed) \<longleftrightarrow> m AND (m + 1) \<noteq> 0 \<or> m = - 1"
proof (cases "m AND (m + 1) \<noteq> 0 \<or> m = - 1")
  case True
  then show ?thesis by (auto simp add: resize_def)
next
  case False
  have "resize s h m \<noteq> Some (Inl Assertion_failed)"
  proof
    assume a: "resize s h m = Some (Inl Assertion_failed)"
    with False show False
      unfolding resize_def Let_def
      by (auto elim!: and_then_SomeE split: if_splits prod.splits
          simp add: hmap_destroy_no_assert dest: clear_loop_no_assert migrate_buckets_no_assert)
  qed
  with False show ?thesis by simp
qed


text \<open>
  C9. For every element count \<open>c\<close> the planned mask satisfies both assertions of
  \<open>resize\<close>, \<^verbatim>\<open>!(new_mask & (new_mask + 1))\<close> and \<^verbatim>\<open>new_mask != SIZE_MAX\<close>, and no
  call of \<open>hmap_expand\<close>, \<open>hmap_shrink\<close> or \<open>hmap_reserve\<close> ends in a failed assertion,
  whatever the store holds.
\<close>

theorem calc_mask_meets_resize_assertions:
  "calc_mask c AND (calc_mask c + 1) = 0 \<and> calc_mask c \<noteq> - 1
   \<and> resize s hmap (calc_mask c) \<noteq> Some (Inl Assertion_failed)
   \<and> hmap_expand s hmap \<noteq> Some (Inl Assertion_failed)
   \<and> hmap_shrink s hmap \<noteq> Some (Inl Assertion_failed)
   \<and> hmap_reserve s hmap c \<noteq> Some (Inl Assertion_failed)"
  by (simp add: hmap_expand_def hmap_shrink_def hmap_reserve_def Let_def resize_assert_iff
      calc_mask_pow2 calc_mask_not_max)

section \<open>Chains and the representation of a table\<close>

lemma is_chain_cong:
  "(\<And>q. q \<in> set ps \<Longrightarrow> nxt' q = nxt q) \<Longrightarrow> is_chain nxt' p ps = is_chain nxt p ps"
  by (induction ps arbitrary: p) auto

lemma is_chain_fun: "is_chain nxt p ps \<Longrightarrow> is_chain nxt p qs \<Longrightarrow> ps = qs"
proof (induction ps arbitrary: p qs)
  case Nil
  then show ?case by (cases qs) auto
next
  case (Cons x xs)
  then show ?case by (cases qs) auto
qed

lemma is_chain_not_null: "is_chain nxt p ps \<Longrightarrow> NULL \<notin> set ps"
  by (induction ps arbitrary: p) auto

lemma is_chain_suffix:
  "is_chain nxt p (xs @ y # ys) \<Longrightarrow> is_chain nxt y (y # ys)"
  by (induction xs arbitrary: p) auto

lemma is_chain_distinct: "is_chain nxt p ps \<Longrightarrow> distinct ps"
proof (induction ps arbitrary: p)
  case Nil
  then show ?case by simp
next
  case (Cons x xs)
  then have tl: "is_chain nxt (nxt x) xs" and d: "distinct xs" by auto
  have "x \<notin> set xs"
  proof
    assume "x \<in> set xs"
    then obtain ys zs where xs: "xs = ys @ x # zs" by (auto simp add: in_set_conv_decomp)
    with tl have "is_chain nxt x (x # zs)" by (auto dest: is_chain_suffix)
    then have "is_chain nxt (nxt x) zs" by simp
    with tl have "xs = zs" by (rule is_chain_fun)
    with xs show False by simp
  qed
  with d show ?case by simp
qed

lemma in_concat_nth: "p \<in> set (concat css) \<longleftrightarrow> (\<exists>i<length css. p \<in> set (css ! i))"
proof
  assume "p \<in> set (concat css)"
  then obtain cs where "cs \<in> set css" "p \<in> set cs" by auto
  moreover from this obtain i where "i < length css" "css ! i = cs"
    by (auto simp add: in_set_conv_nth)
  ultimately show "\<exists>i<length css. p \<in> set (css ! i)" by blast
next
  assume "\<exists>i<length css. p \<in> set (css ! i)"
  then obtain i where "i < length css" "p \<in> set (css ! i)" by blast
  then show "p \<in> set (concat css)" using nth_mem [of i css] by auto
qed

lemma distinct_concat_index:
  assumes "\<And>i. i < length css \<Longrightarrow> distinct (css ! i)"
    and "\<And>i p. i < length css \<Longrightarrow> p \<in> set (css ! i) \<Longrightarrow> f p = i"
  shows "distinct (concat css)"
  using assms
proof (induction css rule: rev_induct)
  case Nil
  then show ?case by simp
next
  case (snoc cs css)
  have d: "distinct (concat css)"
  proof (rule snoc.IH)
    fix i assume "i < length css"
    then show "distinct (css ! i)" using snoc.prems(1) [of i] by (simp add: nth_append)
  next
    fix i p assume "i < length css" "p \<in> set (css ! i)"
    then show "f p = i" using snoc.prems(2) [of i p] by (simp add: nth_append)
  qed
  have dc: "distinct cs" using snoc.prems(1) [of "length css"] by simp
  have "set (concat css) \<inter> set cs = {}"
  proof (rule ccontr)
    assume "set (concat css) \<inter> set cs \<noteq> {}"
    then obtain p where p: "p \<in> set (concat css)" "p \<in> set cs" by auto
    from p(1) obtain i where i: "i < length css" "p \<in> set (css ! i)"
      using in_concat_nth [of p css] by blast
    then have "f p = i" using snoc.prems(2) [of i p] by (simp add: nth_append)
    moreover have "f p = length css" using snoc.prems(2) [of "length css" p] p(2) by simp
    ultimately show False using i(1) by simp
  qed
  with d dc show ?case by simp
qed




lemma hmap_rep_length: "hmap_rep s h css \<Longrightarrow> length css = unat (h_mask (tables s h)) + 1"
  by (auto simp add: hmap_rep_def list_all2_lengthD split: option.splits)

lemma hmap_rep_chains:
  assumes "hmap_rep s h css"
  shows "\<exists>xs. slots s h = Some xs \<and> length xs = length css
    \<and> (\<forall>i<length css. is_chain (node_next s) (xs ! i) (css ! i))"
  using assms by (auto simp add: hmap_rep_def list_all2_conv_all_nth split: option.splits)

lemma hmap_rep_not_null: "hmap_rep s h css \<Longrightarrow> NULL \<notin> set (concat css)"
proof
  assume r: "hmap_rep s h css" and "NULL \<in> set (concat css)"
  then obtain i where i: "i < length css" "NULL \<in> set (css ! i)"
    using in_concat_nth [of NULL css] by blast
  from r obtain xs where "\<And>i. i < length css \<Longrightarrow> is_chain (node_next s) (xs ! i) (css ! i)"
    using hmap_rep_chains by blast
  with i show False using is_chain_not_null by blast
qed

lemma hmap_rep_distinct: "hmap_rep s h css \<Longrightarrow> distinct (concat css)"
proof -
  assume r: "hmap_rep s h css"
  from r obtain xs where c: "\<And>i. i < length css \<Longrightarrow> is_chain (node_next s) (xs ! i) (css ! i)"
    using hmap_rep_chains by blast
  show ?thesis
  proof (rule distinct_concat_index [where f = "\<lambda>p. unat (node_hash s p AND h_mask (tables s h))"])
    fix i assume "i < length css"
    then show "distinct (css ! i)" using c is_chain_distinct by blast
  next
    fix i p assume "i < length css" "p \<in> set (css ! i)"
    with r show "unat (node_hash s p AND h_mask (tables s h)) = i"
      by (simp add: hmap_rep_def)
  qed
qed

section \<open>The fast-insert primitive files a node at the head of its bucket\<close>


lemma read_slot_slots:
  assumes "inline_ok s h" "slots s h = Some xs" "unat i < length xs"
  shows "read_slot s (h_buckets (tables s h)) i = Inr (xs ! unat i)"
  using assms
  by (auto simp add: read_slot_def slots_def inline_ok_def unat_eq_0 split: bptr.splits)

lemma write_slot_slots:
  assumes "inline_ok s h" "slots s h = Some xs" "unat i < length xs"
  shows "\<exists>s'. write_slot s (h_buckets (tables s h)) i v = Inr s'
    \<and> slots s' h = Some (xs[unat i := v]) \<and> frame s s' h
    \<and> h_n (tables s' h) = h_n (tables s h)
    \<and> node_hash s' = node_hash s \<and> node_next s' = node_next s"
proof (cases "h_buckets (tables s h)")
  case (Inline_slot t)
  with assms show ?thesis
    by (auto simp add: write_slot_def slots_def inline_ok_def frame_def unat_eq_0)
next
  case (Block b)
  with assms show ?thesis
    by (auto simp add: write_slot_def slots_def inline_ok_def frame_def)
qed



lemma unat_incr:
  fixes x :: size_t
  assumes "unat x + 1 < 2 ^ 64"
  shows "unat (x + 1) = unat x + 1"
proof -
  have "unat x + unat (1 :: size_t) < 2 ^ LENGTH(64)" using assms by simp
  then have "unat (x + 1) = unat x + unat (1 :: size_t)" by (simp only: unat_add_lem)
  then show ?thesis by simp
qed


section \<open>Migration of the nodes into the temporary table\<close>












lemma distinct_concat_take:
  assumes "distinct (concat css)" "k < length css"
  shows "distinct (concat (take k css) @ css ! k)"
    and "\<And>b. k < b \<Longrightarrow> b < length css \<Longrightarrow> set (css ! k) \<inter> set (css ! b) = {}"
proof -
  have "css = take k css @ css ! k # drop (Suc k) css"
    using assms(2) by (rule id_take_nth_drop)
  then have "concat css = concat (take k css) @ css ! k @ concat (drop (Suc k) css)"
    by (metis concat.simps(2) concat_append)
  with assms(1) have d: "distinct (concat (take k css) @ css ! k @ concat (drop (Suc k) css))"
    by simp
  then show "distinct (concat (take k css) @ css ! k)" by auto
  fix b assume b: "k < b" "b < length css"
  then have "css ! b = drop (Suc k) css ! (b - Suc k)" by simp
  moreover have "b - Suc k < length (drop (Suc k) css)" using b by simp
  ultimately have "css ! b \<in> set (drop (Suc k) css)" by (metis nth_mem)
  then have "set (css ! b) \<subseteq> set (concat (drop (Suc k) css))" by auto
  moreover from d have "set (css ! k) \<inter> set (concat (drop (Suc k) css)) = {}" by auto
  ultimately show "set (css ! k) \<inter> set (css ! b) = {}" by blast
qed



section \<open>Resize rebuilds the table at the new mask\<close>

lemma unat_not_max:
  fixes m :: size_t
  assumes "m \<noteq> - 1"
  shows "unat m + 1 < 2 ^ 64"
proof -
  have "unat m \<noteq> unat (- 1 :: size_t)" using assms by (simp only: word_unat_eq_iff) simp
  moreover have "unat m < 2 ^ 64" using unsigned_less [of m] by simp
  moreover have "unat (- 1 :: size_t) = 2 ^ 64 - 1"
    by (simp add: unsigned_minus_1_eq_mask mask_eq_exp_minus_1)
  ultimately show ?thesis by simp
qed




lemma hmap_rep_transfer:
  assumes "hmap_rep s t css" "inline_ok s' h" "h_mask (tables s' h) = h_mask (tables s t)"
    and "h_n (tables s' h) = h_n (tables s t)" "slots s' h = slots s t"
    and "node_next s' = node_next s" "node_hash s' = node_hash s"
  shows "hmap_rep s' h css"
  using assms by (simp add: hmap_rep_def split: option.splits)




lemma block_store_rep: "hmap_rep block_store (Table 0) [[], [80, 16], [32], []]"
  by (simp add: hmap_rep_def inline_ok_def slots_def block_store_def empty_store_def
      less_Suc_eq all_conj_distrib)



text \<open>
  When the byte count of line 94 wraps to less than one slot, the clearing loop of lines
  96 to 98 writes its first \<^verbatim>\<open>NULL\<close> past the end of the block.
\<close>

lemma resize_overflow:
  assumes "M AND (M + 1) = 0" "M \<noteq> - 1" "M \<noteq> 0" "unat (8 * (M + 1)) div 8 = 0"
  shows "resize s h M = Some (Inl Invalid_access)"
proof -
  define s3 where "s3 = (let (p, s1) = xmalloc (hmap_init s Resize_tmp) (8 * (M + 1));
      s2 = s1\<lparr>tables := (tables s1)(Resize_tmp := (tables s1 Resize_tmp)\<lparr>h_buckets := p\<rparr>)\<rparr>;
      s3 = s2\<lparr>tables := (tables s2)(Resize_tmp := (tables s2 Resize_tmp)\<lparr>h_mask := M\<rparr>)\<rparr>
    in s3)"
  have run: "resize s h M = and_then (and_then (clear_loop s3 Resize_tmp 0) (\<lambda>s4. migrate_buckets s4 h 0))
        (\<lambda>s5. Some (hmap_destroy (hmap_swap s5 h Resize_tmp) Resize_tmp))"
    using assms(1,2,3)
    by (simp add: resize_def s3_def Let_def split_def and_then_def split: option.splits sum.splits)
  have "unat (8 * M + 8) div 8 = 0" using assms(4) by (simp add: distrib_left)
  then have "write_slot s3 (h_buckets (tables s3 Resize_tmp)) 0 NULL = Inl Invalid_access"
    using assms(4) by (simp add: s3_def xmalloc_def hmap_init_def Let_def write_slot_def)
  then have "clear_loop s3 Resize_tmp 0 = Some (Inl Invalid_access)"
    by (subst clear_loop.simps) (simp add: and_then_def)
  then show ?thesis by (simp add: run and_then_def)
qed

text \<open>
  The bound \<open>2^61 - 1\<close> is exact: for every mask that passes the two assertions and is
  not below it, \<open>M + 1\<close> is a multiple of \<open>2^61\<close>, the byte count wraps to 0, and
  \<open>resize\<close> overruns the block.
\<close>

lemma unat_drop_bit_div: "unat (drop_bit n (w :: size_t)) = unat w div 2 ^ n"
proof -
  have "unat w < 2 ^ 64" using unsigned_less [of w] by simp
  then have "take_bit 64 (unat w) = unat w" by (simp only: take_bit_nat_eq_self)
  then show ?thesis by (simp only: unsigned_drop_bit_eq) (simp add: drop_bit_eq_div)
qed

lemma array_bytes_wrap:
  fixes M :: size_t
  assumes "M AND (M + 1) = 0" "M \<noteq> - 1" "\<not> unat M < 2 ^ 61 - 1"
  shows "8 * (M + 1) = 0"
proof -
  let ?x = "M + 1"
  have ux: "unat ?x = unat M + 1" using unat_not_max [OF assms(2)] by (rule unat_incr)
  have lo: "unat ?x mod 2 ^ 61 = 0"
  proof (rule ccontr)
    assume nz: "unat ?x mod 2 ^ 61 \<noteq> 0"
    have "unat M div 2 ^ 61 = unat ?x div 2 ^ 61"
    proof -
      have "unat ?x = unat ?x div 2 ^ 61 * 2 ^ 61 + unat ?x mod 2 ^ 61" by simp
      then have "unat M = unat ?x div 2 ^ 61 * 2 ^ 61 + (unat ?x mod 2 ^ 61 - 1)"
        using nz ux by linarith
      moreover have "unat ?x mod 2 ^ 61 - 1 < 2 ^ 61"
        using mod_less_divisor [of "2 ^ 61" "unat ?x"] by simp
      ultimately show ?thesis
        by (metis div_mult_self3 div_less add.right_neutral zero_less_numeral zero_less_power
            less_numeral_extra(3))
    qed
    then have "unat (drop_bit 61 M) = unat (drop_bit 61 ?x)"
      by (simp only: unat_drop_bit_div)
    then have d: "drop_bit 61 M = drop_bit 61 ?x" by (simp only: word_unat_eq_iff)
    have "unat ?x div 2 ^ 61 \<noteq> 0" using assms(3) ux by simp
    then have "unat (drop_bit 61 ?x) \<noteq> unat (0 :: size_t)"
      by (simp only: unat_drop_bit_div) simp
    then have "drop_bit 61 ?x \<noteq> 0" by (simp only: word_unat_eq_iff) simp
    then obtain n where n: "bit (drop_bit 61 ?x) n" by (auto simp add: bit_eq_iff)
    then have "bit ?x (61 + n)" by (simp add: bit_drop_bit_eq)
    moreover have "bit M (61 + n)" using n d [symmetric] by (simp add: bit_drop_bit_eq)
    ultimately have "bit (M AND ?x) (61 + n)" by (simp add: bit_and_iff)
    then show False using assms(1) by simp
  qed
  have "8 * ?x = (of_nat (8 * unat ?x) :: size_t)" by simp
  also have "8 * unat ?x = 2 ^ 64 * (unat ?x div 2 ^ 61)"
    using lo by (simp add: mod_eq_0_iff_dvd)
  also have "(of_nat (2 ^ 64 * (unat ?x div 2 ^ 61)) :: size_t) = 0"
  proof -
    have z: "(2 ^ 64 :: size_t) = 0" by simp
    have "(of_nat (2 ^ 64 * (unat ?x div 2 ^ 61)) :: size_t)
        = 2 ^ 64 * of_nat (unat ?x div 2 ^ 61)"
      by (simp only: of_nat_mult of_nat_power of_nat_numeral)
    then show ?thesis by (simp only: z mult_zero_left)
  qed
  finally show ?thesis .
qed

lemma resize_wrapped:
  assumes "M AND (M + 1) = 0" "M \<noteq> - 1" "\<not> unat M < 2 ^ 61 - 1"
  shows "resize s h M = Some (Inl Invalid_access)"
proof -
  have "8 * (M + 1) = 0" using assms by (rule array_bytes_wrap)
  then have "unat (8 * (M + 1)) div 8 = 0" by simp
  moreover have "M \<noteq> 0" using assms(3) by auto
  ultimately show ?thesis using assms(1,2) by (intro resize_overflow)
qed


section \<open>Expand, shrink and reserve\<close>





section \<open>Swap\<close>

text \<open>
  C6. For two tables that satisfy the inline-slot invariant, after \<open>hmap_swap\<close> each
  holds the other's former mask, count, inline-slot value and bucket array (so the
  other's chains and node set), each satisfies the inline-slot invariant again, and a
  table whose mask is 0 points \<^verbatim>\<open>buckets\<close> at its own slot \<^verbatim>\<open>one\<close>, never at the
  other table's.
\<close>

theorem hmap_swap_exchanges_contents:
  assumes "inline_ok s a" and "inline_ok s b"
  shows "let s' = hmap_swap s a b in
           h_mask (tables s' a) = h_mask (tables s b) \<and> h_n (tables s' a) = h_n (tables s b)
         \<and> h_one (tables s' a) = h_one (tables s b) \<and> slots s' a = slots s b
         \<and> h_mask (tables s' b) = h_mask (tables s a) \<and> h_n (tables s' b) = h_n (tables s a)
         \<and> h_one (tables s' b) = h_one (tables s a) \<and> slots s' b = slots s a
         \<and> (\<forall>css. hmap_rep s b css \<longrightarrow> hmap_rep s' a css)
         \<and> (\<forall>css. hmap_rep s a css \<longrightarrow> hmap_rep s' b css)
         \<and> inline_ok s' a \<and> inline_ok s' b
         \<and> (h_mask (tables s' a) = 0 \<longrightarrow> h_buckets (tables s' a) = Inline_slot a)
         \<and> (h_mask (tables s' b) = 0 \<longrightarrow> h_buckets (tables s' b) = Inline_slot b)
         \<and> (a \<noteq> b \<longrightarrow> h_buckets (tables s' a) \<noteq> Inline_slot b
                     \<and> h_buckets (tables s' b) \<noteq> Inline_slot a)"
proof -
  define s' where "s' = hmap_swap s a b"
  have f: "h_mask (tables s' a) = h_mask (tables s b)" "h_n (tables s' a) = h_n (tables s b)"
    "h_one (tables s' a) = h_one (tables s b)"
    "h_mask (tables s' b) = h_mask (tables s a)" "h_n (tables s' b) = h_n (tables s a)"
    "h_one (tables s' b) = h_one (tables s a)"
    "node_next s' = node_next s" "node_hash s' = node_hash s"
    by (simp_all add: s'_def hmap_swap_def hmap_moved_def Let_def)
  have sa: "slots s' a = slots s b" and sb: "slots s' b = slots s a"
    using assms
    by (auto simp add: s'_def hmap_swap_def hmap_moved_def Let_def slots_def inline_ok_def
        split: bptr.splits)
  have ia: "inline_ok s' a" and ib: "inline_ok s' b"
    using assms
    by (auto simp add: s'_def hmap_swap_def hmap_moved_def Let_def inline_ok_def
        split: bptr.splits)
  have ra: "hmap_rep s' a css" if "hmap_rep s b css" for css
    using that ia f(1,2) sa f(7,8) by (rule hmap_rep_transfer)
  have rb: "hmap_rep s' b css" if "hmap_rep s a css" for css
    using that ib f(4,5) sb f(7,8) by (rule hmap_rep_transfer)
  have own: "h_mask (tables s' a) = 0 \<longrightarrow> h_buckets (tables s' a) = Inline_slot a"
    "h_mask (tables s' b) = 0 \<longrightarrow> h_buckets (tables s' b) = Inline_slot b"
    using ia ib by (auto simp add: inline_ok_def split: bptr.splits)
  have other: "a \<noteq> b \<longrightarrow> h_buckets (tables s' a) \<noteq> Inline_slot b \<and> h_buckets (tables s' b) \<noteq> Inline_slot a"
    using ia ib by (auto simp add: inline_ok_def split: bptr.splits)
  show ?thesis
    unfolding Let_def s'_def [symmetric]
    using f sa sb ia ib ra rb own other by simp
qed

theorem hmap_swap_exchanges_contents_witness:
  "inline_ok two_table_store (Table 0) \<and> inline_ok two_table_store (Table 1)
   \<and> hmap_rep two_table_store (Table 0) [[32, 16]]
   \<and> (let s' = hmap_swap two_table_store (Table 0) (Table 1) in
        hmap_rep s' (Table 1) [[32, 16]]
      \<and> h_buckets (tables s' (Table 1)) = Inline_slot (Table 1)
      \<and> h_buckets (tables s' (Table 0)) = Block 0
      \<and> h_mask (tables s' (Table 0)) = 3)"
proof -
  have a: "inline_ok two_table_store (Table 0)" and b: "inline_ok two_table_store (Table 1)"
    by (simp_all add: inline_ok_def two_table_store_def inline_store_def empty_store_def)
  have r: "hmap_rep two_table_store (Table 0) [[32, 16]]"
    by (simp add: hmap_rep_def inline_ok_def slots_def two_table_store_def inline_store_def
        empty_store_def)
  have m: "h_mask (tables two_table_store (Table 1)) = 3"
    "h_mask (tables two_table_store (Table 0)) = 0"
    by (simp_all add: two_table_store_def inline_store_def empty_store_def)
  have "h_buckets (tables (hmap_swap two_table_store (Table 0) (Table 1)) (Table 0)) = Block 0"
    by (simp add: hmap_swap_def hmap_moved_def Let_def two_table_store_def inline_store_def
        empty_store_def)
  with hmap_swap_exchanges_contents [OF a b] a b r m show ?thesis
    by (simp add: Let_def)
qed

section \<open>Relocation of a node\<close>

lemma slots_cong: "tables s' = tables s \<Longrightarrow> blocks s' = blocks s \<Longrightarrow> slots s' h = slots s h"
  by (simp add: slots_def split: bptr.splits)

lemma inline_ok_cong: "tables s' h = tables s h \<Longrightarrow> inline_ok s' h = inline_ok s h"
  by (simp add: inline_ok_def split: bptr.splits)

lemma is_chain_split:
  "is_chain nxt p (pre @ x # post) \<longleftrightarrow> is_seg nxt p pre x \<and> x \<noteq> NULL \<and> is_chain nxt (nxt x) post"
  by (induction pre arbitrary: p) auto

lemma is_seg_cong:
  "(\<And>q. q \<in> set ps \<Longrightarrow> nxt' q = nxt q) \<Longrightarrow> is_seg nxt' p ps x = is_seg nxt p ps x"
  by (induction ps arbitrary: p) auto

lemma is_seg_first: "is_seg nxt p pre q \<Longrightarrow> is_seg nxt p (takeWhile (\<lambda>x. x \<noteq> q) pre) q"
  by (induction pre arbitrary: p) auto

lemma find_link_seg:
  assumes "read_link s l = Inr p" "is_seg (node_next s) p pre old_node" "old_node \<notin> set pre"
  shows "find_link s l old_node = Some (Inr (if pre = [] then l else Next_field (last pre)))"
  using assms
proof (induction pre arbitrary: l p)
  case Nil
  then show ?case by (subst find_link.simps) (simp add: and_then_def)
next
  case (Cons x xs)
  from Cons.prems have px: "p = x" "x \<noteq> NULL" "x \<noteq> old_node"
    and tl: "is_seg (node_next s) (node_next s x) xs old_node" "old_node \<notin> set xs" by auto
  have "read_link s (Next_field x) = Inr (node_next s x)" using px(2) by (simp add: read_link_def)
  from Cons.IH [OF this tl]
  have "find_link s (Next_field x) old_node
      = Some (Inr (if xs = [] then Next_field x else Next_field (last xs)))" .
  then show ?case
    using Cons.prems(1) px by (subst find_link.simps) (simp add: and_then_def)
qed

lemma find_link_absent:
  assumes "read_link s l = Inr p" "is_chain (node_next s) p ps" "old_node \<notin> set ps"
    and "old_node \<noteq> NULL"
  shows "find_link s l old_node = Some (Inl Invalid_access)"
  using assms
proof (induction ps arbitrary: l p)
  case Nil
  then have p: "p = NULL" by simp
  have "find_link s (Next_field NULL) old_node = Some (Inl Invalid_access)"
    by (subst find_link.simps) (simp add: and_then_def read_link_def)
  then show ?case
    using Nil.prems(1,4) p by (subst find_link.simps) (simp add: and_then_def)
next
  case (Cons x xs)
  from Cons.prems have px: "p = x" "x \<noteq> NULL" "x \<noteq> old_node"
    and tl: "is_chain (node_next s) (node_next s x) xs" "old_node \<notin> set xs" by auto
  have "read_link s (Next_field x) = Inr (node_next s x)" using px(2) by (simp add: read_link_def)
  from Cons.IH [OF this tl Cons.prems(4)]
  show ?case
    using Cons.prems(1) px by (subst find_link.simps) (simp add: and_then_def)
qed

lemma chain_relocate:
  assumes "is_seg nxt p pre old_node" "node \<noteq> NULL"
    and "is_chain nxt' (nxt' node) post"
    and "pre \<noteq> [] \<Longrightarrow> nxt' (last pre) = node"
    and "\<And>q. q \<in> set (butlast pre) \<Longrightarrow> nxt' q = nxt q"
  shows "is_chain nxt' (if pre = [] then node else p) (pre @ node # post)"
  using assms
proof (induction pre arbitrary: p)
  case Nil
  then show ?case by simp
next
  case (Cons x xs)
  from Cons.prems(1) have px: "p = x" "x \<noteq> NULL" and tl: "is_seg nxt (nxt x) xs old_node"
    by simp_all
  show ?case
  proof (cases "xs = []")
    case True
    with Cons.prems px show ?thesis by simp
  next
    case False
    have nx: "nxt' x = nxt x" using Cons.prems(5) [of x] False by simp
    have "is_chain nxt' (if xs = [] then node else nxt x) (xs @ node # post)"
    proof (rule Cons.IH [OF tl Cons.prems(2,3)])
      show "nxt' (last xs) = node" using Cons.prems(4) False by simp
    next
      fix q assume "q \<in> set (butlast xs)"
      then show "nxt' q = nxt q" using Cons.prems(5) [of q] False by simp
    qed
    with False px nx show ?thesis by simp
  qed
qed

lemma map_relocate_other:
  "old_node \<notin> set cs \<Longrightarrow> map (\<lambda>q. if q = old_node then node else q) cs = cs"
  by (induction cs) auto

lemma length_concat_relocate: "length (concat (relocate a b css)) = length (concat css)"
  by (simp add: relocate_def length_concat comp_def)

lemma distinct_concat_nth_disjoint:
  assumes "distinct (concat css)" "i < length css" "j < length css" "i \<noteq> j"
  shows "set (css ! i) \<inter> set (css ! j) = {}"
proof (cases "i < j")
  case True
  then show ?thesis using distinct_concat_take(2) [OF assms(1,2), of j] assms(3) by simp
next
  case False
  then have "j < i" using assms(4) by simp
  then show ?thesis using distinct_concat_take(2) [OF assms(1,3), of i] assms(2) by auto
qed

lemma distinct_concat_nth: "distinct (concat css) \<Longrightarrow> i < length css \<Longrightarrow> distinct (css ! i)"
  using distinct_concat_take(1) [of css i] by simp

lemma hmap_node_moved_rep:
  fixes gh :: size_t and gn :: addr
  assumes rep: "hmap_rep s0 h css" and old: "old_node \<in> set (concat css)"
    and node: "node \<noteq> NULL" "node \<notin> set (concat css)"
    and s: "s = s0\<lparr>node_hash := (node_hash s0)(old_node := gh, node := node_hash s0 old_node),
                   node_next := (node_next s0)(old_node := gn, node := node_next s0 old_node)\<rparr>"
  shows "\<exists>s'. hmap_node_moved s h old_node node = Some (Inr s')
    \<and> hmap_rep s' h (relocate old_node node css)
    \<and> h_n (tables s' h) = h_n (tables s0 h) \<and> h_mask (tables s' h) = h_mask (tables s0 h)
    \<and> node_hash s' = node_hash s"
proof -
  let ?M = "h_mask (tables s0 h)"
  let ?f = "\<lambda>q. if q = old_node then node else q"
  from rep obtain xs where xs: "slots s0 h = Some xs" "length xs = length css"
    and ch: "\<And>i. i < length css \<Longrightarrow> is_chain (node_next s0) (xs ! i) (css ! i)"
    using hmap_rep_chains by blast
  have hashes: "\<And>i p. i < length css \<Longrightarrow> p \<in> set (css ! i) \<Longrightarrow> unat (node_hash s0 p AND ?M) = i"
    using rep by (simp add: hmap_rep_def)
  have io: "inline_ok s0 h" using rep by (simp add: hmap_rep_def)
  have len: "length css = unat ?M + 1" using rep by (rule hmap_rep_length)
  note d = hmap_rep_distinct [OF rep]
  from old obtain j where j: "j < length css" "old_node \<in> set (css ! j)"
    using in_concat_nth [of old_node css] by blast
  have hj: "unat (node_hash s0 old_node AND ?M) = j" using hashes [OF j] .
  from j(2) obtain pre post where sp: "css ! j = pre @ old_node # post"
    by (auto dest: split_list)
  have dj: "distinct (pre @ old_node # post)" using distinct_concat_nth [OF d j(1)] sp by simp
  have nin: "node \<notin> set (css ! i)" if "i < length css" for i
    using node(2) that in_concat_nth [of node css] by blast
  have neq: "old_node \<noteq> node" using old node(2) by auto
  have oth: "old_node \<notin> set (css ! i)" if "i < length css" "i \<noteq> j" for i
    using distinct_concat_nth_disjoint [OF d that(1) j(1) that(2)] j(2) by auto
  have ts: "tables s = tables s0" "blocks s = blocks s0" by (simp_all add: s)
  have sl: "slots s h = Some xs" using xs(1) slots_cong [OF ts, of h] by simp
  have ios: "inline_ok s h" using io inline_ok_cong [of s h s0] by (simp add: ts)
  have nx: "node_next s q = node_next s0 q" if "q \<noteq> old_node" "q \<noteq> node" for q
    using that by (simp add: s)
  have nxn: "node_next s node = node_next s0 old_node" by (simp add: s)
  have hq: "node_hash s q = node_hash s0 q" if "q \<noteq> old_node" "q \<noteq> node" for q
    using that by (simp add: s)
  have hn: "node_hash s node = node_hash s0 old_node" by (simp add: s)
  have cj: "is_seg (node_next s0) (xs ! j) pre old_node" "old_node \<noteq> NULL"
    "is_chain (node_next s0) (node_next s0 old_node) post"
    using ch [OF j(1)] by (simp_all add: sp is_chain_split)
  have pre_ok: "q \<noteq> old_node \<and> q \<noteq> node" if "q \<in> set pre" for q
    using that dj nin [OF j(1)] by (auto simp add: sp)
  have post_ok: "q \<noteq> old_node \<and> q \<noteq> node \<and> q \<notin> set pre" if "q \<in> set post" for q
    using that dj nin [OF j(1)] by (auto simp add: sp)
  have "is_seg (node_next s) (xs ! j) pre old_node = is_seg (node_next s0) (xs ! j) pre old_node"
    using pre_ok nx by (intro is_seg_cong) blast
  with cj(1) have seg: "is_seg (node_next s) (xs ! j) pre old_node" by simp
  let ?idx = "node_hash s node AND h_mask (tables s h)"
  let ?l0 = "Slot (h_buckets (tables s h)) ?idx"
  have idx: "unat ?idx = j" using hj by (simp add: hn ts)
  have jx: "unat ?idx < length xs" using idx j(1) xs(2) by simp
  have rd: "read_link s ?l0 = Inr (xs ! j)"
    using read_slot_slots [OF ios sl jx] idx by (simp add: read_link_def)
  have "old_node \<notin> set pre" using dj by simp
  from find_link_seg [OF rd seg this]
  have fl: "find_link s ?l0 old_node = Some (Inr (if pre = [] then ?l0 else Next_field (last pre)))" .
  have "\<exists>s'. write_link s (if pre = [] then ?l0 else Next_field (last pre)) node = Inr s'
    \<and> slots s' h = Some (if pre = [] then xs[j := node] else xs)
    \<and> h_mask (tables s' h) = ?M \<and> h_n (tables s' h) = h_n (tables s0 h)
    \<and> h_buckets (tables s' h) = h_buckets (tables s0 h)
    \<and> node_hash s' = node_hash s
    \<and> node_next s' = (if pre = [] then node_next s else (node_next s)(last pre := node))"
  proof (cases "pre = []")
    case True
    from write_slot_slots [OF ios sl jx, of node]
    obtain s' where "write_slot s (h_buckets (tables s h)) ?idx node = Inr s'"
      "slots s' h = Some (xs[j := node])" "frame s s' h" "h_n (tables s' h) = h_n (tables s h)"
      "node_hash s' = node_hash s" "node_next s' = node_next s"
      using idx by auto
    with True show ?thesis by (auto simp add: write_link_def frame_def ts)
  next
    case False
    then have "last pre \<in> set pre" by simp
    then have "last pre \<noteq> NULL"
      using is_chain_not_null [OF ch [OF j(1)]] by (auto simp add: sp)
    with False show ?thesis
      using sl by (simp add: write_link_def slots_def ts split: bptr.splits)
  qed
  then obtain s' where s': "write_link s (if pre = [] then ?l0 else Next_field (last pre)) node = Inr s'"
    "slots s' h = Some (if pre = [] then xs[j := node] else xs)"
    "h_mask (tables s' h) = ?M" "h_n (tables s' h) = h_n (tables s0 h)"
    "h_buckets (tables s' h) = h_buckets (tables s0 h)"
    "node_hash s' = node_hash s"
    "node_next s' = (if pre = [] then node_next s else (node_next s)(last pre := node))"
    by blast
  have run: "hmap_node_moved s h old_node node = Some (Inr s')"
    using node(1) fl s'(1) by (simp add: hmap_node_moved_def and_then_def)
  have nx': "node_next s' q = node_next s0 q"
    if "q \<noteq> old_node" "q \<noteq> node" "pre \<noteq> [] \<Longrightarrow> q \<noteq> last pre" for q
    using that nx [of q] by (auto simp add: s'(7))
  have nxn': "node_next s' node = node_next s0 old_node"
    using nxn pre_ok [of "last pre"] by (auto simp add: s'(7))
  have rj: "relocate old_node node css ! j = pre @ node # post"
    using j(1) dj by (simp add: relocate_def sp map_relocate_other)
  have ri: "relocate old_node node css ! i = css ! i" if "i < length css" "i \<noteq> j" for i
    using that oth [OF that] by (simp add: relocate_def map_relocate_other)
  have chj: "is_chain (node_next s') (if pre = [] then node else xs ! j) (pre @ node # post)"
  proof (rule chain_relocate [OF cj(1) node(1)])
    have "is_chain (node_next s') (node_next s0 old_node) post
        = is_chain (node_next s0) (node_next s0 old_node) post"
    proof (rule is_chain_cong)
      fix q assume q: "q \<in> set post"
      show "node_next s' q = node_next s0 q"
      proof (rule nx')
        show "q \<noteq> old_node" "q \<noteq> node" using post_ok [OF q] by simp_all
        assume "pre \<noteq> []"
        then have "last pre \<in> set pre" by simp
        then show "q \<noteq> last pre" using post_ok [OF q] by auto
      qed
    qed
    with cj(3) show "is_chain (node_next s') (node_next s' node) post" by (simp add: nxn')
  next
    assume "pre \<noteq> []"
    then show "node_next s' (last pre) = node" by (simp add: s'(7))
  next
    fix q assume q: "q \<in> set (butlast pre)"
    then have qp: "q \<in> set pre" by (rule in_set_butlastD)
    show "node_next s' q = node_next s0 q"
    proof (rule nx')
      show "q \<noteq> old_node" "q \<noteq> node" using pre_ok [OF qp] by simp_all
      assume ne: "pre \<noteq> []"
      have "distinct pre" using dj by simp
      then have "distinct (butlast pre @ [last pre])" using ne by simp
      then show "q \<noteq> last pre" using q by auto
    qed
  qed
  let ?xs' = "if pre = [] then xs[j := node] else xs"
  have chains: "is_chain (node_next s') (?xs' ! i) (relocate old_node node css ! i)"
    if i: "i < length css" for i
  proof (cases "i = j")
    case True
    then show ?thesis using chj j(1) xs(2) by (cases "pre = []") (simp_all add: rj)
  next
    case False
    have "is_chain (node_next s') (xs ! i) (css ! i) = is_chain (node_next s0) (xs ! i) (css ! i)"
    proof (rule is_chain_cong)
      fix q assume q: "q \<in> set (css ! i)"
      have dis: "set (css ! i) \<inter> set (css ! j) = {}"
        using distinct_concat_nth_disjoint [OF d i j(1) False] .
      show "node_next s' q = node_next s0 q"
      proof (rule nx')
        show "q \<noteq> old_node" using q oth [OF i False] by auto
        show "q \<noteq> node" using q nin [OF i] by auto
        assume "pre \<noteq> []"
        then have "last pre \<in> set (css ! j)" by (simp add: sp)
        then show "q \<noteq> last pre" using q dis by auto
      qed
    qed
    with ch [OF i] False i show ?thesis by (simp add: ri)
  qed
  have hashes': "unat (node_hash s' q AND ?M) = i"
    if i: "i < length (relocate old_node node css)" and q: "q \<in> set (relocate old_node node css ! i)"
    for i q
  proof -
    from i have i': "i < length css" by (simp add: relocate_def)
    from q obtain q0 where q0: "q0 \<in> set (css ! i)" "q = ?f q0"
      using i' by (auto simp add: relocate_def)
    show ?thesis
    proof (cases "q0 = old_node")
      case True
      then have "i = j" using oth [OF i'] q0(1) by auto
      with True q0(2) hj show ?thesis by (simp add: s'(6) hn)
    next
      case False
      then have "q = q0" "q0 \<noteq> node" using q0 nin [OF i'] by auto
      with False hashes [OF i' q0(1)] show ?thesis by (simp add: s'(6) hq)
    qed
  qed
  have "inline_ok s' h" using io by (simp add: inline_ok_def s'(3,5) split: bptr.splits)
  moreover have "?M AND (?M + 1) = 0" "?M \<noteq> - 1"
    and "unat (h_n (tables s0 h)) = length (concat css)"
    using rep by (simp_all add: hmap_rep_def)
  moreover have "length ?xs' = unat ?M + 1" using xs(2) len by simp
  moreover have "list_all2 (is_chain (node_next s')) ?xs' (relocate old_node node css)"
    unfolding list_all2_conv_all_nth
    using chains xs(2) by (cases "pre = []") (simp_all add: relocate_def)
  ultimately have "hmap_rep s' h (relocate old_node node css)"
    using hashes' unfolding hmap_rep_def
    by (simp add: s'(2,3,4) length_concat_relocate)
  with run s'(3,4,6) show ?thesis by blast
qed

text \<open>
  C7. A node \<open>old_node\<close> of a valid table is moved: its fields are copied to the fresh
  address \<open>node\<close> (not \<^verbatim>\<open>NULL\<close>, not in the table) and the old storage may hold
  anything (\<open>gh\<close>, \<open>gn\<close>). Then \<open>hmap_node_moved\<close> returns, the node lies at its new
  address in the chain of bucket \<^verbatim>\<open>hash & mask\<close>, and every chain is the chain it was
  with \<open>old_node\<close> replaced by \<open>node\<close> in place: order, \<^verbatim>\<open>n\<close>, the mask and every
  other node's bucket and position are unaltered.
\<close>

theorem hmap_node_moved_relinks:
  fixes gh :: size_t and gn :: addr
  assumes "hmap_rep s0 hmap css" and "old_node \<in> set (concat css)"
    and "node \<noteq> NULL" and "node \<notin> set (concat css)"
    and "s = s0\<lparr>node_hash := (node_hash s0)(old_node := gh, node := node_hash s0 old_node),
                 node_next := (node_next s0)(old_node := gn, node := node_next s0 old_node)\<rparr>"
  shows "case hmap_node_moved s hmap old_node node of
           Some (Inr s') \<Rightarrow>
             hmap_rep s' hmap (relocate old_node node css)
           \<and> node \<in> set (relocate old_node node css
                           ! unat (node_hash s' node AND h_mask (tables s' hmap)))
           \<and> h_n (tables s' hmap) = h_n (tables s0 hmap)
           \<and> h_mask (tables s' hmap) = h_mask (tables s0 hmap)
           \<and> node_hash s' = node_hash s
         | _ \<Rightarrow> False"
proof -
  from hmap_node_moved_rep [OF assms]
  obtain s' where s': "hmap_node_moved s hmap old_node node = Some (Inr s')"
    "hmap_rep s' hmap (relocate old_node node css)"
    "h_n (tables s' hmap) = h_n (tables s0 hmap)"
    "h_mask (tables s' hmap) = h_mask (tables s0 hmap)" "node_hash s' = node_hash s"
    by blast
  from assms(2) obtain j where j: "j < length css" "old_node \<in> set (css ! j)"
    using in_concat_nth [of old_node css] by blast
  then have "unat (node_hash s0 old_node AND h_mask (tables s0 hmap)) = j"
    using assms(1) by (simp add: hmap_rep_def)
  moreover have "node_hash s' node = node_hash s0 old_node" by (simp add: s'(5) assms(5))
  moreover have "node \<in> set (relocate old_node node css ! j)"
    using j by (auto simp add: relocate_def)
  ultimately show ?thesis using s' by simp
qed

theorem hmap_node_moved_relinks_witness:
  "hmap_rep block_store (Table 0) [[], [80, 16], [32], []]
   \<and> (16 :: addr) \<in> set (concat [[], [80, 16], [32], []])
   \<and> (96 :: addr) \<noteq> NULL \<and> (96 :: addr) \<notin> set (concat [[], [80, 16], [32], []])
   \<and> (case hmap_node_moved
            (block_store\<lparr>node_hash := (node_hash block_store)(16 := 0, 96 := node_hash block_store 16),
                         node_next := (node_next block_store)(16 := 0, 96 := node_next block_store 16)\<rparr>)
            (Table 0) 16 96 of
         Some (Inr s') \<Rightarrow>
           hmap_rep s' (Table 0) [[], [80, 96], [32], []] \<and> h_n (tables s' (Table 0)) = 3
       | _ \<Rightarrow> False)"
proof -
  have a: "(16 :: addr) \<in> set (concat [[], [80, 16], [32], []])" by simp
  have b: "(96 :: addr) \<noteq> NULL" "(96 :: addr) \<notin> set (concat [[], [80, 16], [32], []])"
    by simp_all
  have r: "relocate 16 96 [[], [80, 16], [32], []] = [[], [80, 96], [32], []]"
    by (simp add: relocate_def)
  have n: "h_n (tables block_store (Table 0)) = 3"
    by (simp add: block_store_def empty_store_def)
  from hmap_node_moved_relinks [OF block_store_rep a b refl, of 0 0]
  show ?thesis using block_store_rep
    by (simp add: r n split: option.splits sum.splits)
qed

text \<open>
  C8, as amended. The walk of \<open>hmap_node_moved\<close> starts at the slot of bucket
  \<^verbatim>\<open>node->hash & mask\<close>. Nothing is assumed of the store but what the walk reads: the
  slot holds \<open>p\<close>. When \<open>old_node\<close> is linked in the chain, that is the \<^verbatim>\<open>next\<close>
  fields lead from \<open>p\<close> through the nodes \<open>pre\<close> to \<open>old_node\<close>, the walk returns the
  first link that points at \<open>old_node\<close>, after as many \<^verbatim>\<open>next\<close> steps as there are nodes
  before it; the fields of \<open>old_node\<close> itself are not read. When a non-\<^verbatim>\<open>NULL\<close>
  \<open>old_node\<close> is not in a chain that ends in \<^verbatim>\<open>NULL\<close>, the walk is not unbounded: it
  reaches the \<^verbatim>\<open>NULL\<close> that ends the chain and faults on the next dereference.
\<close>

theorem find_link_stops_at_old_node:
  fixes s :: state and hmap :: href and node old_node :: addr
  defines "bucket0 \<equiv> Slot (h_buckets (tables s hmap)) (node_hash s node AND h_mask (tables s hmap))"
  shows "(read_link s bucket0 = Inr p \<and> is_seg (node_next s) p pre old_node \<longrightarrow>
            (\<exists>k \<le> length pre. old_node \<notin> set (take k pre)
               \<and> is_seg (node_next s) p (take k pre) old_node
               \<and> find_link s bucket0 old_node
                   = Some (Inr (if k = 0 then bucket0 else Next_field (pre ! (k - 1))))))
       \<and> (read_link s bucket0 = Inr p \<and> is_chain (node_next s) p ps
            \<and> old_node \<notin> set ps \<and> old_node \<noteq> NULL \<longrightarrow>
            find_link s bucket0 old_node = Some (Inl Invalid_access))"
proof (intro conjI impI)
  assume a: "read_link s bucket0 = Inr p \<and> is_seg (node_next s) p pre old_node"
  let ?pre = "takeWhile (\<lambda>x. x \<noteq> old_node) pre"
  let ?k = "length ?pre"
  have tk: "?pre = take ?k pre" by (rule takeWhile_eq_take)
  have k: "?k \<le> length pre" by (rule length_takeWhile_le)
  have seg: "is_seg (node_next s) p ?pre old_node" using a by (simp add: is_seg_first)
  have nin: "old_node \<notin> set ?pre" by (auto dest: set_takeWhileD)
  from find_link_seg [OF _ seg nin, of bucket0] a
  have f: "find_link s bucket0 old_node
      = Some (Inr (if ?pre = [] then bucket0 else Next_field (last ?pre)))" by simp
  have "last ?pre = pre ! (?k - 1)" if "?pre \<noteq> []"
  proof -
    from that have k0: "?k \<noteq> 0" by simp
    have "take ?k pre \<noteq> []" using that tk by simp
    then have "last (take ?k pre) = take ?k pre ! (length (take ?k pre) - 1)"
      by (rule last_conv_nth)
    also have "length (take ?k pre) = ?k" using k by simp
    also have "take ?k pre ! (?k - 1) = pre ! (?k - 1)" using k0 by simp
    finally show ?thesis using tk by simp
  qed
  with f have "find_link s bucket0 old_node
      = Some (Inr (if ?k = 0 then bucket0 else Next_field (pre ! (?k - 1))))"
    by (cases "?pre = []") simp_all
  moreover have "old_node \<notin> set (take ?k pre)" "is_seg (node_next s) p (take ?k pre) old_node"
    using nin seg tk by simp_all
  ultimately show "\<exists>k \<le> length pre. old_node \<notin> set (take k pre)
      \<and> is_seg (node_next s) p (take k pre) old_node
      \<and> find_link s bucket0 old_node
          = Some (Inr (if k = 0 then bucket0 else Next_field (pre ! (k - 1))))"
    using k by blast
next
  assume "read_link s bucket0 = Inr p \<and> is_chain (node_next s) p ps
      \<and> old_node \<notin> set ps \<and> old_node \<noteq> NULL"
  then show "find_link s bucket0 old_node = Some (Inl Invalid_access)"
    using find_link_absent [of s bucket0 p ps old_node] by simp
qed

text \<open>
  The walk in \<open>moved_store\<close>, the store in which \<open>hmap_node_moved\<close> is called for the
  node moved from 16 to 96: the old storage holds zeros, so the table does not satisfy
  the data-model invariants there (the hash at the address 16 selects bucket 0, not
  bucket 1), and the walk still stops at the \<^verbatim>\<open>next\<close> field of the node 80.
\<close>

theorem find_link_stops_at_old_node_witness:
  "read_link moved_store
      (Slot (h_buckets (tables moved_store (Table 0)))
         (node_hash moved_store 96 AND h_mask (tables moved_store (Table 0)))) = Inr 80
   \<and> is_seg (node_next moved_store) 80 [80] 16
   \<and> node_hash moved_store 16 AND h_mask (tables moved_store (Table 0)) = 0
   \<and> node_hash moved_store 96 AND h_mask (tables moved_store (Table 0)) = 1
   \<and> find_link moved_store
        (Slot (h_buckets (tables moved_store (Table 0)))
           (node_hash moved_store 96 AND h_mask (tables moved_store (Table 0)))) 16
      = Some (Inr (Next_field 80))
   \<and> is_chain (node_next moved_store) 80 [80, 16]
   \<and> (48 :: addr) \<notin> set [80, 16] \<and> (48 :: addr) \<noteq> NULL
   \<and> find_link moved_store
        (Slot (h_buckets (tables moved_store (Table 0)))
           (node_hash moved_store 96 AND h_mask (tables moved_store (Table 0)))) 48
      = Some (Inl Invalid_access)"
proof -
  let ?b = "Slot (h_buckets (tables moved_store (Table 0)))
           (node_hash moved_store 96 AND h_mask (tables moved_store (Table 0)))"
  have rd: "read_link moved_store ?b = Inr 80"
    by (simp add: read_link_def read_slot_def moved_store_def block_store_def empty_store_def)
  have sg: "is_seg (node_next moved_store) 80 [80] 16"
    by (simp add: moved_store_def block_store_def empty_store_def)
  have ch: "is_chain (node_next moved_store) 80 [80, 16]"
    by (simp add: moved_store_def block_store_def empty_store_def)
  have hs: "node_hash moved_store 16 AND h_mask (tables moved_store (Table 0)) = 0"
    "node_hash moved_store 96 AND h_mask (tables moved_store (Table 0)) = 1"
    by (simp_all add: moved_store_def block_store_def empty_store_def)
  note t = find_link_stops_at_old_node [where s = moved_store and hmap = "Table 0" and node = 96
      and p = 80]
  from t [where old_node = 16 and pre = "[80]"] rd sg
  obtain k where k: "k \<le> length [80 :: addr]" "is_seg (node_next moved_store) 80 (take k [80]) 16"
    "find_link moved_store ?b 16 = Some (Inr (if k = 0 then ?b else Next_field ([80] ! (k - 1))))"
    by blast
  have "k \<noteq> 0" using k(2) by (cases k) simp_all
  with k(1) have "k = 1" by simp
  with k(3) have 1: "find_link moved_store ?b 16 = Some (Inr (Next_field 80))" by simp
  from t [where old_node = 48 and ps = "[80, 16]"] rd ch
  have 2: "find_link moved_store ?b 48 = Some (Inl Invalid_access)" by simp
  show ?thesis using rd sg ch hs 1 2 by simp
qed

text \<open>
  C8 as stated fails on an empty bucket: \<open>old_node\<close> is absent, and the walk ends after
  one step in a \<^verbatim>\<open>NULL\<close> dereference instead of running without bound.
\<close>

theorem find_link_runs_off_empty_chain:
  "(16 :: addr) \<notin> set ([[]] ! unat (node_hash empty_store 32 AND h_mask (tables empty_store (Table 0))))
   \<and> find_link empty_store
        (Slot (h_buckets (tables empty_store (Table 0)))
           (node_hash empty_store 32 AND h_mask (tables empty_store (Table 0)))) 16
      = Some (Inl Invalid_access)
   \<and> hmap_node_moved empty_store (Table 0) 16 32 = Some (Inl Invalid_access)"
proof -
  have rd: "read_link empty_store (Slot (Inline_slot (Table 0)) 0) = Inr NULL"
    by (simp add: read_link_def read_slot_def empty_store_def)
  have "is_chain (node_next empty_store) NULL []" by simp
  from find_link_absent [OF rd this, of 16]
  have "find_link empty_store (Slot (Inline_slot (Table 0)) 0) 16 = Some (Inl Invalid_access)"
    by simp
  then show ?thesis
    by (simp add: hmap_node_moved_def and_then_def empty_store_def)
qed

section \<open>Traversal with the position cursor\<close>

lemma ucast_of_nat_down: "(ucast (of_nat n :: size_t) :: uint32_t) = of_nat n"
proof -
  have "(ucast (of_nat n :: size_t) :: uint32_t) = of_nat (take_bit 64 n)"
    by (simp add: unsigned_of_nat)
  also have "\<dots> = of_nat n"
    by (simp add: word_of_nat_eq_iff take_bit_take_bit)
  finally show ?thesis .
qed

lemma ucast_unat_down: "unat (w :: size_t) = n \<Longrightarrow> (ucast w :: uint32_t) = of_nat n"
proof -
  assume "unat w = n"
  then have "w = of_nat n" by auto
  then show ?thesis by (simp only: ucast_of_nat_down)
qed

lemma ucast_succ_down: "unat (w :: size_t) = n \<Longrightarrow> (ucast (w + 1) :: uint32_t) = of_nat (Suc n)"
proof -
  assume "unat w = n"
  then have "w = of_nat n" by auto
  then have "w + 1 = of_nat (Suc n)" by simp
  then show ?thesis by (simp only: ucast_of_nat_down)
qed

lemma unat_ucast_up:
  "n < 2 ^ 32 \<Longrightarrow> unat (ucast (of_nat n :: uint32_t) :: size_t) = n"
proof -
  assume n: "n < 2 ^ 32"
  have "unat (ucast (of_nat n :: uint32_t) :: size_t) = take_bit 64 (unat (of_nat n :: uint32_t))"
    by (simp add: unsigned_ucast_eq)
  also have "unat (of_nat n :: uint32_t) = n" using n by (simp add: unat_of_nat)
  also have "take_bit 64 n = n" using n by (simp add: take_bit_nat_eq_self)
  finally show ?thesis .
qed

lemma chain_nth:
  assumes "is_chain nxt p ps" "k < length ps"
  shows "ps ! k \<noteq> NULL" and "nxt (ps ! k) = (if Suc k < length ps then ps ! Suc k else NULL)"
  using assms
proof (induction ps arbitrary: p k)
  case Nil
  { case 1 then show ?case by simp }
  { case 2 then show ?case by simp }
next
  case (Cons x xs)
  { case 1
    then show ?case using Cons.IH(1) [of "nxt x" "k - 1"] by (cases k) auto }
  { case 2
    then show ?case using Cons.IH(2) [of "nxt x" "k - 1"]
      by (cases k; cases xs) auto }
qed

lemma scan_chain_nth:
  assumes "is_chain (node_next s) p ps" "n_idx \<le> offset"
  shows "scan_chain s p n_idx offset
    = (if unat (offset - n_idx) < length ps then Some (ps ! unat (offset - n_idx)) else None)"
  using assms
proof (induction ps arbitrary: p n_idx)
  case Nil
  then show ?case by (simp add: scan_chain.simps)
next
  case (Cons x xs)
  from Cons.prems(1) have px: "p = x" "x \<noteq> NULL"
    and tl: "is_chain (node_next s) (node_next s x) xs" by simp_all
  show ?case
  proof (cases "n_idx = offset")
    case True
    then show ?thesis using px by (simp add: scan_chain.simps [of s x])
  next
    case False
    with Cons.prems(2) have lt: "n_idx < offset" by simp
    then have le: "n_idx + 1 \<le> offset" by (simp add: inc_le)
    have nz: "offset - n_idx \<noteq> 0" using False by simp
    have eq: "offset - (n_idx + 1) = offset - n_idx - 1" by simp
    have u: "unat (offset - (n_idx + 1)) = unat (offset - n_idx) - 1"
      unfolding eq using nz by (rule unat_minus_one)
    have pos: "0 < unat (offset - n_idx)" using nz by (simp add: unat_gt_0)
    from Cons.IH [OF tl le] have "scan_chain s (node_next s x) (n_idx + 1) offset
        = (if unat (offset - n_idx) - 1 < length xs
           then Some (xs ! (unat (offset - n_idx) - 1)) else None)"
      by (simp only: u)
    then show ?thesis
      using False px pos
      by (subst scan_chain.simps) (cases "unat (offset - n_idx)"; simp)
  qed
qed

lemma scan_chain_from_head:
  assumes "is_chain (node_next s) p ps"
  shows "scan_chain s p 0 offset
    = (if unat offset < length ps then Some (ps ! unat offset) else None)"
  using scan_chain_nth [OF assms, of 0 offset] by simp

lemma at_position_loop_spec:
  assumes "hmap_rep s h css" "unat b_idx = b" "b \<le> length css" "unat offset = ofs"
  shows "at_position_loop s h offset b_idx = Some (Inr (at_spec css b ofs))"
  using assms(2,3,4)
proof (induction "length css - b" arbitrary: b b_idx offset ofs)
  case 0
  then have "b = length css" by simp
  then have b: "unat b_idx = unat (h_mask (tables s h)) + 1"
    using 0 hmap_rep_length [OF assms(1)] by simp
  then have "\<not> b_idx \<le> h_mask (tables s h)" by (simp add: word_le_nat_alt)
  then have "at_position_loop s h offset b_idx = Some (Inr (NULL, 0, 0))"
    by (subst at_position_loop.simps) simp
  moreover have "at_spec css b ofs = (NULL, 0, 0)"
    using \<open>b = length css\<close> by (simp add: at_spec.simps)
  ultimately show ?case by simp
next
  case (Suc d)
  let ?M = "h_mask (tables s h)"
  from assms(1) obtain xs where xs: "slots s h = Some xs" "length xs = length css"
    and ch: "\<And>i. i < length css \<Longrightarrow> is_chain (node_next s) (xs ! i) (css ! i)"
    using hmap_rep_chains by blast
  have io: "inline_ok s h" and mh: "?M \<noteq> - 1" using assms(1) by (simp_all add: hmap_rep_def)
  have len: "length css = unat ?M + 1" using assms(1) by (rule hmap_rep_length)
  from Suc.hyps(2) have b: "b < length css" by simp
  then have le: "b_idx \<le> ?M" using len Suc.prems(1) by (simp add: word_le_nat_alt)
  have rd: "read_slot s (h_buckets (tables s h)) b_idx = Inr (xs ! b)"
    using read_slot_slots [OF io xs(1), of b_idx] b xs(2) Suc.prems(1) by simp
  have sc: "scan_chain s (xs ! b) 0 offset
      = (if ofs < length (css ! b) then Some (css ! b ! ofs) else None)"
    using scan_chain_from_head [OF ch [OF b], of offset] Suc.prems(3) by simp
  show ?case
  proof (cases "ofs < length (css ! b)")
    case True
    let ?node = "css ! b ! ofs"
    have "?node \<in> set (css ! b)" using True by simp
    then have "unat (node_hash s ?node AND ?M) = b" using assms(1) b by (simp add: hmap_rep_def)
    then have hb: "node_hash s ?node AND ?M = b_idx" using Suc.prems(1) by (simp add: word_unat_eq_iff)
    note cn = chain_nth [OF ch [OF b] True]
    have nxt: "node_next s ?node \<noteq> NULL \<longleftrightarrow> Suc ofs < length (css ! b)"
      using cn(2) chain_nth(1) [OF ch [OF b], of "Suc ofs"] by auto
    have c1: "(ucast b_idx :: uint32_t) = of_nat b" using Suc.prems(1) by (rule ucast_unat_down)
    have c2: "(ucast (b_idx + 1) :: uint32_t) = of_nat (Suc b)"
      using Suc.prems(1) by (rule ucast_succ_down)
    have c3: "(ucast (offset + 1) :: uint32_t) = of_nat (Suc ofs)"
      using Suc.prems(3) by (rule ucast_succ_down)
    have "at_position_loop s h offset b_idx
        = Some (Inr (if Suc ofs < length (css ! b)
                     then (?node, of_nat b, of_nat (Suc ofs))
                     else (?node, of_nat (Suc b), 0)))"
      using le rd sc True nxt
      by (subst at_position_loop.simps) (simp add: and_then_def hb c1 c2 c3)
    moreover have "at_spec css b ofs
        = (if Suc ofs < length (css ! b)
           then (?node, of_nat b, of_nat (Suc ofs))
           else (?node, of_nat (Suc b), 0))"
      using b True by (simp add: at_spec.simps [of css b])
    ultimately show ?thesis by simp
  next
    case False
    have "unat b_idx + 1 < 2 ^ 64" using unat_not_max [OF mh] b len Suc.prems(1) by simp
    then have i1: "unat (b_idx + 1) = Suc b" using unat_incr [of b_idx] Suc.prems(1) by simp
    have "d = length css - Suc b" using Suc.hyps(2) by simp
    from Suc.hyps(1) [OF this i1, of 0 0] b
    have "at_position_loop s h 0 (b_idx + 1) = Some (Inr (at_spec css (Suc b) 0))" by simp
    moreover have "at_spec css b ofs = at_spec css (Suc b) 0"
      using b False by (simp add: at_spec.simps [of css b])
    ultimately show ?thesis
      using le rd sc False
      by (subst at_position_loop.simps) (simp add: and_then_def)
  qed
qed

lemma at_spec_rest:
  assumes "b \<le> length css" "ofs = 0 \<or> (b < length css \<and> ofs < length (css ! b))"
  shows "case drop ofs (concat (drop b css)) of
           [] \<Rightarrow> at_spec css b ofs = (NULL, 0, 0)
         | p # ps \<Rightarrow>
             (\<exists>b' ofs'. at_spec css b ofs = (p, of_nat b', of_nat ofs')
                \<and> b' \<le> length css
                \<and> (ofs' = 0 \<or> (b' < length css \<and> ofs' < length (css ! b')))
                \<and> drop ofs' (concat (drop b' css)) = ps)"
  using assms
proof (induction css b ofs rule: at_spec.induct)
  case (1 css b ofs)
  show ?case
  proof (cases "b < length css")
    case False
    then show ?thesis by (simp add: at_spec.simps [of css b])
  next
    case b: True
    have cc: "concat (drop b css) = css ! b @ concat (drop (Suc b) css)"
      using b by (simp add: Cons_nth_drop_Suc [symmetric])
    show ?thesis
    proof (cases "ofs < length (css ! b)")
      case True
      have r: "drop ofs (concat (drop b css))
          = css ! b ! ofs # (drop (Suc ofs) (css ! b) @ concat (drop (Suc b) css))"
        using True by (simp add: cc Cons_nth_drop_Suc)
      show ?thesis
      proof (cases "Suc ofs < length (css ! b)")
        case s: True
        have "at_spec css b ofs = (css ! b ! ofs, of_nat b, of_nat (Suc ofs))"
          using b True s by (simp add: at_spec.simps [of css b])
        moreover have "drop (Suc ofs) (concat (drop b css))
            = drop (Suc ofs) (css ! b) @ concat (drop (Suc b) css)"
          using s by (simp add: cc)
        ultimately show ?thesis
          using b s unfolding r
          by (simp only: list.case) (intro exI [of _ b] exI [of _ "Suc ofs"], simp)
      next
        case s: False
        have "at_spec css b ofs = (css ! b ! ofs, of_nat (Suc b), of_nat 0)"
          using b True s by (simp add: at_spec.simps [of css b])
        moreover have "drop 0 (concat (drop (Suc b) css))
            = drop (Suc ofs) (css ! b) @ concat (drop (Suc b) css)"
          using s by simp
        ultimately show ?thesis
          using b unfolding r
          by (simp only: list.case) (intro exI [of _ "Suc b"] exI [of _ 0], simp)
      qed
    next
      case False
      with 1(3) have z: "ofs = 0" "css ! b = []" by auto
      have e1: "at_spec css b ofs = at_spec css (Suc b) 0"
        using b False by (simp add: at_spec.simps [of css b])
      have e2: "drop ofs (concat (drop b css)) = drop 0 (concat (drop (Suc b) css))"
        using z by (simp add: cc)
      show ?thesis
        unfolding e1 e2 using b False by (intro 1(1)) simp_all
    qed
  qed
qed

lemma hmap_at_position_spec:
  assumes "hmap_rep s h css" "b \<le> length css" "b < 2 ^ 32" "ofs < 2 ^ 32"
  shows "hmap_at_position s h (of_nat b, of_nat ofs) = Some (Inr (at_spec css b ofs))"
  unfolding hmap_at_position_def Let_def fst_conv snd_conv
  using assms(1) unat_ucast_up [OF assms(3)] assms(2) unat_ucast_up [OF assms(4)]
  by (rule at_position_loop_spec)

lemma traverse_rest:
  assumes "hmap_rep s h css" "length css < 2 ^ 32" "\<forall>i<length css. length (css ! i) \<le> 2 ^ 32"
    and "b \<le> length css" "ofs = 0 \<or> (b < length css \<and> ofs < length (css ! b))"
    and "length (drop ofs (concat (drop b css))) < fuel"
  shows "traverse fuel s h (of_nat b, of_nat ofs) = Some (drop ofs (concat (drop b css)), 0, 0)"
  using assms(4,5,6)
proof (induction fuel arbitrary: b ofs)
  case 0
  then show ?case by simp
next
  case (Suc k)
  have b32: "b < 2 ^ 32" using Suc.prems(1) assms(2) by simp
  have o32: "ofs < 2 ^ 32" using Suc.prems(2) assms(3) by (auto simp add: less_le_trans)
  note call = hmap_at_position_spec [OF assms(1) Suc.prems(1) b32 o32]
  note sp = at_spec_rest [OF Suc.prems(1,2)]
  show ?case
  proof (cases "drop ofs (concat (drop b css))")
    case Nil
    with sp call show ?thesis by simp
  next
    case (Cons p ps)
    with sp obtain b' ofs' where n: "at_spec css b ofs = (p, of_nat b', of_nat ofs')"
      "b' \<le> length css" "ofs' = 0 \<or> (b' < length css \<and> ofs' < length (css ! b'))"
      "drop ofs' (concat (drop b' css)) = ps"
      by auto
    have "p \<in> set (drop ofs (concat (drop b css)))" using Cons by simp
    then have "p \<in> set (concat (drop b css))" by (rule in_set_dropD)
    then have "p \<in> set (concat css)" by (auto dest: in_set_dropD)
    then have pn: "p \<noteq> NULL" using hmap_rep_not_null [OF assms(1)] by auto
    have "length (drop ofs' (concat (drop b' css))) < k" using Suc.prems(3) Cons n(4) by simp
    from Suc.IH [OF n(2,3) this]
    have "traverse k s h (of_nat b', of_nat ofs') = Some (ps, 0, 0)" by (simp add: n(4))
    with call n(1) pn Cons show ?thesis by simp
  qed
qed

text \<open>
  C4, as amended. For a valid table with fewer than \<open>2^32 - 1\<close> as mask (so that every
  bucket index and its successor fit the 32-bit cursor) and with at most \<open>2^32\<close> nodes in
  each chain, the calls of \<open>hmap_at_position\<close> from cursor \<open>(0, 0)\<close> on visit the nodes
  in ascending bucket order and in chain order within a bucket, each node exactly once;
  the call after the last node returns \<^verbatim>\<open>NULL\<close> and leaves the cursor \<open>(0, 0)\<close>. The
  result is a function of the unmodified store, so every full traversal repeats it.
\<close>

theorem full_traversal_visits_every_node_once:
  assumes "hmap_rep s hmap css"
    and "unat (h_mask (tables s hmap)) < 2 ^ 32 - 1"
    and "\<forall>i < length css. length (css ! i) \<le> 2 ^ 32"
    and "length (concat css) < fuel"
  shows "traverse fuel s hmap (0, 0) = Some (concat css, 0, 0)
       \<and> distinct (concat css)
       \<and> (\<forall>b \<le> length css. concat (drop b css) = [] \<longrightarrow>
            hmap_at_position s hmap (of_nat b, 0) = Some (Inr (NULL, 0, 0)))"
proof (intro conjI allI impI)
  have len: "length css < 2 ^ 32" using assms(2) hmap_rep_length [OF assms(1)] by simp
  from traverse_rest [OF assms(1) len assms(3), of 0 0 fuel] assms(4)
  show "traverse fuel s hmap (0, 0) = Some (concat css, 0, 0)" by simp
  show "distinct (concat css)" using assms(1) by (rule hmap_rep_distinct)
  fix b assume b: "b \<le> length css" "concat (drop b css) = []"
  then have "b < 2 ^ 32" using len by simp
  from hmap_at_position_spec [OF assms(1) b(1) this, of 0] at_spec_rest [OF b(1), of 0] b(2)
  show "hmap_at_position s hmap (of_nat b, 0) = Some (Inr (NULL, 0, 0))" by simp
qed

theorem full_traversal_visits_every_node_once_witness:
  "hmap_rep block_store (Table 0) [[], [80, 16], [32], []]
   \<and> unat (h_mask (tables block_store (Table 0))) < 2 ^ 32 - 1
   \<and> length [80, 16 :: addr] \<le> 2 ^ 32 \<and> length [32 :: addr] \<le> 2 ^ 32
   \<and> traverse 4 block_store (Table 0) (0, 0) = Some ([80, 16, 32], 0, 0)
   \<and> hmap_at_position block_store (Table 0) (3, 0) = Some (Inr (NULL, 0, 0))"
proof -
  have m: "unat (h_mask (tables block_store (Table 0))) < 2 ^ 32 - 1"
    by (simp add: block_store_def empty_store_def)
  have l: "\<forall>i < length [[], [80, 16 :: addr], [32], []]. length ([[], [80, 16 :: addr], [32], []] ! i) \<le> 2 ^ 32"
    by (simp add: less_Suc_eq all_conj_distrib)
  have f: "length (concat [[], [80, 16 :: addr], [32], []]) < 4" by simp
  from full_traversal_visits_every_node_once [OF block_store_rep m l f]
  have "traverse 4 block_store (Table 0) (0, 0) = Some ([80, 16, 32], 0, 0)"
    and "\<forall>b \<le> 4. concat (drop b [[], [80, 16 :: addr], [32], []]) = [] \<longrightarrow>
        hmap_at_position block_store (Table 0) (of_nat b, 0) = Some (Inr (NULL, 0, 0))"
    by simp_all
  from this(1) this(2) [rule_format, of 3] show ?thesis
    using block_store_rep m by simp
qed

lemma at_spec_skip:
  assumes "\<And>i. b \<le> i \<Longrightarrow> i < b' \<Longrightarrow> css ! i = []" "b \<le> b'" "b' \<le> length css"
  shows "at_spec css b 0 = at_spec css b' 0"
  using assms
proof (induction "b' - b" arbitrary: b)
  case 0
  then show ?case by simp
next
  case (Suc d)
  then have b: "b < b'" "b < length css" "css ! b = []" by auto
  have "at_spec css b 0 = at_spec css (Suc b) 0"
    using b by (simp add: at_spec.simps [of css b])
  also have "\<dots> = at_spec css b' 0"
    using Suc.hyps(2) Suc.prems b by (intro Suc.hyps(1)) auto
  finally show ?case .
qed

lemma at_spec_single: "at_spec (replicate N [] @ [[p]]) 0 0 = (p, of_nat (Suc N), 0)"
proof -
  have "at_spec (replicate N [] @ [[p]]) 0 0 = at_spec (replicate N [] @ [[p]]) N 0"
    by (rule at_spec_skip) (simp_all add: nth_append)
  also have "\<dots> = (p, of_nat (Suc N), 0)"
    by (simp add: at_spec.simps [of _ N] nth_append)
  finally show ?thesis .
qed

lemma single_node_store_rep:
  assumes "M \<noteq> 0" "M \<noteq> - 1" "M AND (M + 1) = 0"
  shows "hmap_rep (single_node_store M) (Table 0) (replicate (unat M) [] @ [[16]])"
proof -
  have "list_all2 (is_chain (\<lambda>p. NULL)) (replicate (unat M) NULL @ [16]) (replicate (unat M) [] @ [[16]])"
    by (intro list_all2_appendI) (simp_all add: list_all2_conv_all_nth)
  moreover have "\<forall>i<Suc (unat M). \<forall>p\<in>set ((replicate (unat M) [] @ [[16 :: addr]]) ! i).
      unat (((\<lambda>p. 0)(16 := M)) p AND M) = i"
    by (auto simp add: nth_append less_Suc_eq)
  ultimately show ?thesis
    using assms
    by (simp add: hmap_rep_def inline_ok_def slots_def single_node_store_def empty_store_def)
qed

text \<open>
  C4 as stated fails for a table of \<open>2^32\<close> buckets (mask \<open>2^32 - 1\<close>, as
  \<open>hmap_reserve\<close> builds for a count of \<open>2^33\<close>) with one node in the last bucket: the
  first call returns the node and stores \<^verbatim>\<open>(hash & mask) + 1 = 2^32\<close> into the 32-bit
  \<^verbatim>\<open>*bucketp\<close>, which is 0, so the next call returns the same node again and the
  traversal is never exhausted.
\<close>

theorem traversal_restarts_with_2_32_buckets:
  "hmap_rep (single_node_store 4294967295) (Table 0)
     (replicate (unat (4294967295 :: size_t)) [] @ [[16]])
   \<and> hmap_at_position (single_node_store 4294967295) (Table 0) (0, 0) = Some (Inr (16, 0, 0))
   \<and> traverse 2 (single_node_store 4294967295) (Table 0) (0, 0) = None"
proof -
  let ?M = "4294967295 :: size_t"
  have M: "?M \<noteq> 0" "?M \<noteq> - 1" "?M AND (?M + 1) = 0" by simp_all
  note rep = single_node_store_rep [OF M]
  have "length (replicate (unat ?M) ([] :: addr list) @ [[16]]) = Suc (unat ?M)" by simp
  from hmap_at_position_spec [OF rep, of 0 0]
  have "hmap_at_position (single_node_store ?M) (Table 0) (0, 0)
      = Some (Inr (16, of_nat (Suc (unat ?M)), 0))"
    by (simp only: at_spec_single) simp
  moreover have "(of_nat (Suc (unat ?M)) :: uint32_t) = 0" by simp
  ultimately have call: "hmap_at_position (single_node_store ?M) (Table 0) (0, 0)
      = Some (Inr (16, 0, 0))"
    by simp
  have "traverse (Suc (Suc 0)) (single_node_store ?M) (Table 0) (0, 0) = None"
    by (simp add: call)
  then have "traverse 2 (single_node_store ?M) (Table 0) (0, 0) = None"
    by (simp only: numeral_2_eq_2)
  with rep call show ?thesis by simp
qed

section \<open>The count along a run of operations\<close>


















text \<open>
  Why the contract of the fast-insert primitive is part of the amended statement: the
  primitive makes no duplicate check, so when a node is inserted twice it becomes its
  own successor, and \<^verbatim>\<open>n\<close> is 2 while the single bucket holds the one node 16.
\<close>

lemma double_insert_breaks_count:
  "case run (hmap_init empty_store (Table 0)) (Table 0) [Insert 16 1, Insert 16 1] of
     Some (Inr s') \<Rightarrow>
       h_n (tables s' (Table 0)) = 2 \<and> h_mask (tables s' (Table 0)) = 0
       \<and> slots s' (Table 0) = Some [16] \<and> node_next s' 16 = 16
   | _ \<Rightarrow> False"
  by (simp add: and_then_def hmap_insert_fast_def hmap_init_def empty_store_def read_slot_def
      write_slot_def slots_def Let_def)

end
